theory Spec2Isabelle
  imports Main "HOL-Library.Word" "HOL-Library.Sublist"
begin

section \<open>JavaScript strings and sets\<close>

text \<open>
  A JavaScript string is a sequence of 16-bit code units. Literals of the script that are
  plain ASCII are written with \<open>ascii\<close>; Japanese text is given by its code units.
\<close>

type_synonym jschar = "16 word"
type_synonym jsstring = "jschar list"

definition ascii :: "string \<Rightarrow> jsstring" where
  "ascii s = map of_char s"

text \<open>
  A JavaScript \<open>Set\<close> keeps its members in insertion order and without duplicates;
  \<open>add\<close> of a member that is already there changes nothing.
\<close>

type_synonym 'a jsset = "'a list"

definition Set_has :: "'a jsset \<Rightarrow> 'a \<Rightarrow> bool" where
  "Set_has s x = (x \<in> set s)"

definition Set_add :: "'a jsset \<Rightarrow> 'a \<Rightarrow> 'a jsset" where
  "Set_add s x = (if x \<in> set s then s else s @ [x])"

section \<open>The pop-up dictionary: \<open>findRubyInDictionary\<close>\<close>

subsection \<open>The regular expression\<close>

text \<open>
  The pattern \<^verbatim>\<open>/<ruby><rb>([^<]*)<\/rb><rt>[^<]*<\/rt><\/ruby>/g\<close> is a sequence of
  literal code units, two greedy stars over the class \<^verbatim>\<open>[^<]\<close> and one capture group.
  \<open>rmatch\<close> is the backtracking matcher at a fixed start: \<open>n\<close> counts the code units
  consumed so far, \<open>gs\<close> and \<open>ge\<close> are the bounds of group 1. A star first tries to
  take one more code unit and falls back to the rest of the pattern when that fails.
\<close>

datatype tok = Lit jschar | StarNot jschar | GroupOpen | GroupClose

fun rmatch :: "tok list \<Rightarrow> jsstring \<Rightarrow> nat \<Rightarrow> nat \<Rightarrow> nat \<Rightarrow> (nat \<times> nat \<times> nat) option" where
  "rmatch [] s n gs ge = Some (n, gs, ge)"
| "rmatch (Lit c # ts) [] n gs ge = None"
| "rmatch (Lit c # ts) (x # xs) n gs ge =
     (if x = c then rmatch ts xs (Suc n) gs ge else None)"
| "rmatch (GroupOpen # ts) s n gs ge = rmatch ts s n n ge"
| "rmatch (GroupClose # ts) s n gs ge = rmatch ts s n gs n"
| "rmatch (StarNot c # ts) [] n gs ge = rmatch ts [] n gs ge"
| "rmatch (StarNot c # ts) (x # xs) n gs ge =
     (if x \<noteq> c then
        (case rmatch (StarNot c # ts) xs (Suc n) gs ge of
           Some r \<Rightarrow> Some r
         | None \<Rightarrow> rmatch ts (x # xs) n gs ge)
      else rmatch ts (x # xs) n gs ge)"

definition lt :: jschar where
  "lt = of_char CHR ''<''"

definition rubyElementMatcherExp :: "tok list" where
  "rubyElementMatcherExp =
     map Lit (ascii ''<ruby><rb>'') @ [GroupOpen, StarNot lt, GroupClose] @
     map Lit (ascii ''</rb><rt>'') @ [StarNot lt] @
     map Lit (ascii ''</rt></ruby>'')"

subsection \<open>\<open>replaceAll\<close> with a global pattern and a replacer function\<close>

text \<open>
  The search starts at the left end. Where the pattern matches, the replacer gets the
  matched text and group 1, its result is appended, and the search goes on behind the
  match; where it does not, the code unit is copied. After an empty match the search
  moves on by one code unit, and the end of the string is a position too.
\<close>

function replaceAll :: "tok list \<Rightarrow> (jsstring \<Rightarrow> jsstring \<Rightarrow> jsstring) \<Rightarrow> jsstring \<Rightarrow> jsstring" where
  "replaceAll re f [] =
     (case rmatch re [] 0 0 0 of
        None \<Rightarrow> []
      | Some (e, gs, ge) \<Rightarrow> f [] [])"
| "replaceAll re f (x # xs) =
     (case rmatch re (x # xs) 0 0 0 of
        None \<Rightarrow> x # replaceAll re f xs
      | Some (e, gs, ge) \<Rightarrow>
          f (take e (x # xs)) (take (ge - gs) (drop gs (x # xs))) @
          (if e = 0 then x # replaceAll re f xs
           else replaceAll re f (drop e (x # xs))))"
  by pat_completeness auto
termination
  by (relation "measure (\<lambda>(re, f, s). length s)") auto

subsection \<open>The rewrite of one definition text, and of the whole dictionary\<close>

text \<open>
  \<open>rewriteDef\<close> is the expression
  \<^verbatim>\<open>entryValues.def.replaceAll(rubyElementMatcherExp, (rubyElement, word) => knownVocab.has(word) ? word : rubyElement)\<close>.
\<close>

definition rewriteDef :: "jsstring jsset \<Rightarrow> jsstring \<Rightarrow> jsstring" where
  "rewriteDef knownVocab d =
     replaceAll rubyElementMatcherExp
       (\<lambda>rubyElement word. if Set_has knownVocab word then word else rubyElement) d"

text \<open>
  \<open>g_dic.reikai.entries\<close> maps an entry key to an array of objects with a \<open>def\<close>
  field; the keys are visited in the order of \<open>Object.keys\<close>, and each object is
  updated in place. Other fields of an entry are the record's extension.
\<close>

record entryValues =
  "def" :: jsstring

definition findRubyInDictionary ::
  "jsstring jsset \<Rightarrow> (jsstring \<times> 'a entryValues_scheme list) list
     \<Rightarrow> (jsstring \<times> 'a entryValues_scheme list) list" where
  "findRubyInDictionary knownVocab entries =
     map (\<lambda>(entryKey, vals).
            (entryKey, map (\<lambda>entryValues. entryValues\<lparr>def := rewriteDef knownVocab (def entryValues)\<rparr>) vals))
         entries"

section \<open>Exceptions\<close>

text \<open>
  The exceptions the script can end with: the dereference of \<open>null\<close> or \<open>undefined\<close>,
  a malformed escape sequence in \<open>decodeURIComponent\<close>, and a response body that
  is not JSON.
\<close>

datatype error = TypeError | URIError | SyntaxError

section \<open>The page: \<open>findRubyInPage\<close>\<close>

subsection \<open>Documents\<close>

text \<open>
  A node is a text node, a comment or an element. An element carries the \<open>nodeName\<close>
  the DOM reports for it (upper case for the HTML elements of an HTML document, so the
  selectors \<^verbatim>\<open>ruby\<close> and \<^verbatim>\<open>rt\<close> select the elements named \<^verbatim>\<open>RUBY\<close> and \<^verbatim>\<open>RT\<close>), the
  \<open>visibility\<close> of its inline style and its child nodes. A node of the live document is
  addressed by its path, the child indices from the root; the document is its root element.
\<close>

datatype node =
    Text jsstring
  | Comment jsstring
  | Element jsstring jsstring "node list"

type_synonym path = "nat list"

fun nodeName :: "node \<Rightarrow> jsstring" where
  "nodeName (Text s) = ascii ''#text''"
| "nodeName (Comment s) = ascii ''#comment''"
| "nodeName (Element name vis cs) = name"

fun childNodes :: "node \<Rightarrow> node list" where
  "childNodes (Element name vis cs) = cs"
| "childNodes n = []"

fun isTextNode :: "node \<Rightarrow> bool" where
  "isTextNode (Text s) = True"
| "isTextNode n = False"

text \<open>
  \<open>textContent\<close> of an element is the text of its text descendants in tree order;
  of a text node or a comment it is the node's own data.
\<close>

fun descendantText :: "node \<Rightarrow> jsstring" where
  "descendantText (Text s) = s"
| "descendantText (Comment s) = []"
| "descendantText (Element name vis cs) = concat (map descendantText cs)"

fun textContent :: "node \<Rightarrow> jsstring" where
  "textContent (Text s) = s"
| "textContent (Comment s) = s"
| "textContent (Element name vis cs) = concat (map descendantText cs)"

text \<open>
  \<open>querySelectorAll\<close> lists the matching elements in document order, the node it is
  called on included; \<open>querySelector\<close> on an element gives the first matching
  descendant, as a path from that element, or nothing (\<open>null\<close>).
\<close>

fun selectAll :: "jsstring \<Rightarrow> node \<Rightarrow> path list"
  and selectAllFrom :: "jsstring \<Rightarrow> nat \<Rightarrow> node list \<Rightarrow> path list" where
  "selectAll name (Text s) = []"
| "selectAll name (Comment s) = []"
| "selectAll name (Element nm vis cs) = (if nm = name then [[]] else []) @ selectAllFrom name 0 cs"
| "selectAllFrom name i [] = []"
| "selectAllFrom name i (c # cs) = map ((#) i) (selectAll name c) @ selectAllFrom name (Suc i) cs"

definition querySelectorAll :: "jsstring \<Rightarrow> node \<Rightarrow> path list" where
  "querySelectorAll name document = selectAll name document"

definition querySelector :: "jsstring \<Rightarrow> node \<Rightarrow> path option" where
  "querySelector name element =
     (case selectAllFrom name 0 (childNodes element) of [] \<Rightarrow> None | q # qs \<Rightarrow> Some q)"

fun nodeAt :: "node \<Rightarrow> path \<Rightarrow> node option" where
  "nodeAt n [] = Some n"
| "nodeAt (Element nm vis cs) (i # p) = (if i < length cs then nodeAt (cs ! i) p else None)"
| "nodeAt n (i # p) = None"

text \<open>The assignment \<^verbatim>\<open>element.style.visibility = v\<close> at a path.\<close>

fun setVisibility :: "jsstring \<Rightarrow> path \<Rightarrow> node \<Rightarrow> node" where
  "setVisibility v [] (Element nm vis cs) = Element nm v cs"
| "setVisibility v (i # p) (Element nm vis cs) =
     (if i < length cs then Element nm vis (cs[i := setVisibility v p (cs ! i)])
      else Element nm vis cs)"
| "setVisibility v p n = n"

subsection \<open>\<open>getTextWithoutRuby\<close> and \<open>findRubyInPage\<close>\<close>

definition getTextWithoutRuby :: "node \<Rightarrow> jsstring" where
  "getTextWithoutRuby rubyElement =
     foldl (\<lambda>result childNode.
              result @ (if isTextNode childNode \<or> nodeName childNode \<noteq> ascii ''RT''
                        then textContent childNode else []))
           [] (childNodes rubyElement)"

text \<open>
  \<open>forEachRuby\<close> is the \<open>forEach\<close> over the node list that \<open>querySelectorAll\<close>
  returned. Each element is read from the document as it is by then. Styling the result
  of a \<open>querySelector\<close> that found nothing raises \<open>TypeError\<close> and ends the loop; the
  changes made before stay in the document, so the document is returned in either case.
  (A path of the node list always leads to a node, see \<open>querySelectorAll_nodeAt\<close>; the
  first branch is never taken.)
\<close>

fun forEachRuby :: "jsstring jsset \<Rightarrow> path list \<Rightarrow> node \<Rightarrow> (error + unit) \<times> node" where
  "forEachRuby knownVocab [] document = (Inr (), document)"
| "forEachRuby knownVocab (p # ps) document =
     (case nodeAt document p of
        None \<Rightarrow> forEachRuby knownVocab ps document
      | Some foundWord \<Rightarrow>
          if Set_has knownVocab (getTextWithoutRuby foundWord) then
            (case querySelector (ascii ''RT'') foundWord of
               None \<Rightarrow> (Inl TypeError, document)
             | Some q \<Rightarrow> forEachRuby knownVocab ps (setVisibility (ascii ''hidden'') (p @ q) document))
          else forEachRuby knownVocab ps document)"

definition findRubyInPage :: "jsstring jsset \<Rightarrow> node \<Rightarrow> (error + unit) \<times> node" where
  "findRubyInPage knownVocab document =
     forEachRuby knownVocab (querySelectorAll (ascii ''RUBY'') document) document"

section \<open>The credential and the two paginated lookups\<close>

subsection \<open>Values, storage, prompt and network\<close>

text \<open>
  The values the script handles as credential or as the \<open>next_url\<close> of a page are
  strings, \<open>null\<close> and \<open>undefined\<close>; \<open>truthy\<close> is the test of \<^verbatim>\<open>if (v)\<close> and
  \<^verbatim>\<open>while (v)\<close>, and \<open>toString\<close> is what string concatenation makes of a value.
\<close>

datatype jsval = Undefined | Null | Str jsstring

fun truthy :: "jsval \<Rightarrow> bool" where
  "truthy (Str s) = (s \<noteq> [])"
| "truthy v = False"

fun toString :: "jsval \<Rightarrow> jsstring" where
  "toString Undefined = ascii ''undefined''"
| "toString Null = ascii ''null''"
| "toString (Str s) = s"

text \<open>
  \<open>Array.from(subjectIds).join()\<close> writes the members with commas between them: an
  identifier in decimal (identifiers are natural numbers far below the size from which
  JavaScript writes a number with an exponent), \<open>undefined\<close> as the empty string.
\<close>

definition digit :: "nat \<Rightarrow> jschar" where
  "digit d = of_nat (48 + d)"

fun Number_toString :: "nat \<Rightarrow> jsstring" where
  "Number_toString n =
     (if n < 10 then [digit n] else Number_toString (n div 10) @ [digit (n mod 10)])"

declare Number_toString.simps [simp del]

fun idString :: "nat option \<Rightarrow> jsstring" where
  "idString None = []"
| "idString (Some n) = Number_toString n"

fun join :: "jsstring list \<Rightarrow> jsstring" where
  "join [] = []"
| "join [s] = s"
| "join (s # t # ss) = s @ ascii '','' @ join (t # ss)"

text \<open>
  \<open>decodeURIComponent\<close> returns a string without \<^verbatim>\<open>%\<close> as it is. What the browser
  makes of a string with escape sequences is a parameter of the model, \<open>unescape\<close>:
  the decoded string, or nothing where it raises \<open>URIError\<close>.
\<close>

definition percent :: jschar where
  "percent = of_char CHR ''%''"

definition decodeURIComponent :: "(jsstring \<Rightarrow> jsstring option) \<Rightarrow> jsstring \<Rightarrow> error + jsstring" where
  "decodeURIComponent unescape s =
     (if percent \<in> set s then (case unescape s of None \<Rightarrow> Inl URIError | Some t \<Rightarrow> Inr t)
      else Inr s)"

text \<open>
  A page of the service is a collection: the records under \<open>data\<close> and the address of
  the next page under \<open>pages.next_url\<close>. Of a record only the object under its own
  \<open>data\<close> matters, which is that of an assignment or of a subject. JSON is untyped:
  \<open>val.data.subject_id\<close> and \<open>subject.data.slug\<close> are read from whatever record is
  there, and a field that the record does not have reads as \<open>undefined\<close> (\<open>None\<close>).
  The body of a response is a collection, some other JSON value on which the reads of
  \<open>pages.next_url\<close> and \<open>data\<close> raise (\<open>OtherJson\<close>, for instance the error object
  of the service), or no JSON at all. A \<open>fetch\<close> either fails (\<open>NetworkError\<close>) or
  gives a response with its \<open>ok\<close> flag and its body.
\<close>

record assignment =
  subject_id :: nat
  srs_stage :: nat
  subject_type :: jsstring

record subject =
  slug :: jsstring

datatype resource = AssignmentData assignment | SubjectData subject

fun subject_id_of :: "resource \<Rightarrow> nat option" where
  "subject_id_of (AssignmentData a) = Some (subject_id a)"
| "subject_id_of (SubjectData s) = None"

fun slug_of :: "resource \<Rightarrow> jsstring option" where
  "slug_of (SubjectData s) = Some (slug s)"
| "slug_of (AssignmentData a) = None"

record collection =
  data :: "resource list"
  next_url :: jsval

datatype body = Json collection | OtherJson | NotJson

datatype response = NetworkError | Response bool body

text \<open>
  The world outside the script: the values kept by \<open>GM.setValue\<close>, what the user
  enters at the prompt (\<open>Null\<close> when the prompt is cancelled), the responses that the
  successive calls of \<open>fetch\<close> are going to receive, and the trace of what the script has
  done to the outside so far. A \<open>fetch\<close> with no response left never settles: the result
  of the whole run is then \<open>None\<close>.
\<close>

datatype event =
    Prompt jsstring
  | Fetch jsstring jsstring
  | SetValue jsstring jsval
  | ConsoleLog

record world =
  storage :: "jsstring \<Rightarrow> jsval"
  userInput :: jsval
  responses :: "response list"
  trace :: "event list"

definition fetch :: "jsstring \<Rightarrow> jsstring \<Rightarrow> world \<Rightarrow> (response \<times> world) option" where
  "fetch url authorization w =
     (case responses w of
        [] \<Rightarrow> None
      | r # rs \<Rightarrow> Some (r, w\<lparr>responses := rs, trace := trace w @ [Fetch url authorization]\<rparr>))"

definition console_log :: "world \<Rightarrow> world" where
  "console_log w = w\<lparr>trace := trace w @ [ConsoleLog]\<rparr>"

definition WK_API_TOKEN :: jsstring where
  "WK_API_TOKEN = ascii ''WK_API_TOKEN''"

definition GM_setValue :: "jsstring \<Rightarrow> jsval \<Rightarrow> world \<Rightarrow> world" where
  "GM_setValue key v w = w\<lparr>storage := (storage w)(key := v), trace := trace w @ [SetValue key v]\<rparr>"

definition prompt :: "jsstring \<Rightarrow> world \<Rightarrow> jsval \<times> world" where
  "prompt message w = (userInput w, w\<lparr>trace := trace w @ [Prompt message]\<rparr>)"

subsection \<open>\<open>getApiToken\<close>\<close>

text \<open>
  The rejection of the \<open>fetch\<close> promise is caught and logged, which leaves
  \<open>response\<close> undefined; reading \<open>response.ok\<close> then raises \<open>TypeError\<close>.
\<close>

definition getApiToken ::
  "(jsstring \<Rightarrow> jsstring option) \<Rightarrow> world \<Rightarrow> ((error + jsval) \<times> world) option" where
  "getApiToken unescape w =
     (let existingToken = storage w WK_API_TOKEN in
      if truthy existingToken then Some (Inr existingToken, w)
      else
        (case prompt (ascii ''Please enter your WaniKani API Token to continue:'') w of
           (apiTokenFromUser, w1) \<Rightarrow>
             (case decodeURIComponent unescape (ascii ''https://api.wanikani.com/v2/voice_actors'') of
                Inl e \<Rightarrow> Some (Inl e, w1)
              | Inr url \<Rightarrow>
                  (case fetch url (ascii ''Bearer '' @ toString apiTokenFromUser) w1 of
                     None \<Rightarrow> None
                   | Some (NetworkError, w2) \<Rightarrow> Some (Inl TypeError, console_log w2)
                   | Some (Response ok b, w2) \<Rightarrow>
                       if ok then Some (Inr apiTokenFromUser, GM_setValue WK_API_TOKEN apiTokenFromUser w2)
                       else Some (Inr Undefined, w2)))))"

subsection \<open>\<open>lookupVocab\<close> and \<open>getAssignments\<close>\<close>

text \<open>
  The known set is only ever asked for strings (\<open>has\<close> of a text), so the member
  \<open>undefined\<close> that a record without slug would add is not kept in the model. In the
  set of identifiers it is kept, since \<open>join\<close> writes it.
\<close>

definition addVocabFromSubjects :: "collection \<Rightarrow> jsstring jsset \<Rightarrow> jsstring jsset" where
  "addVocabFromSubjects subjectsAsJson vocabSet =
     foldl (\<lambda>s subject. case slug_of subject of None \<Rightarrow> s | Some t \<Rightarrow> Set_add s t)
       vocabSet (data subjectsAsJson)"

definition lookupSubjectIds :: "collection \<Rightarrow> nat option jsset \<Rightarrow> nat option jsset" where
  "lookupSubjectIds assignmentsAsJson subjectIds =
     foldl (\<lambda>s val. Set_add s (subject_id_of val)) subjectIds (data assignmentsAsJson)"

text \<open>
  The \<open>do ... while (nextPage)\<close> loop of \<open>lookupVocab\<close>, from the page at
  \<open>nextPage\<close> on. The set is updated in place, so it is returned also when the loop
  ends with an exception. As in \<open>getApiToken\<close> a failed \<open>fetch\<close> leaves \<open>response\<close>
  undefined, and \<open>response.json()\<close> raises \<open>TypeError\<close>; a body that is not JSON makes
  it raise \<open>SyntaxError\<close>. The \<open>ok\<close> flag of the response is not looked at. The
  request is made for the decoded address as it is: the constructor of \<open>Request\<close> is
  taken to accept it.
\<close>

function lookupVocab_pages ::
  "(jsstring \<Rightarrow> jsstring option) \<Rightarrow> jsval \<Rightarrow> jsstring \<Rightarrow> jsstring jsset \<Rightarrow> world
     \<Rightarrow> ((error + unit) \<times> jsstring jsset \<times> world) option" where
  "lookupVocab_pages unescape apiToken nextPage vocabSet w =
     (case decodeURIComponent unescape nextPage of
        Inl e \<Rightarrow> Some (Inl e, vocabSet, w)
      | Inr url \<Rightarrow>
          (case fetch url (ascii ''Bearer '' @ toString apiToken) w of
             None \<Rightarrow> None
           | Some (NetworkError, w1) \<Rightarrow> Some (Inl TypeError, vocabSet, console_log w1)
           | Some (Response ok (Json jsonData), w1) \<Rightarrow>
               (let vocabSet1 = addVocabFromSubjects jsonData vocabSet in
                if truthy (next_url jsonData)
                then lookupVocab_pages unescape apiToken (toString (next_url jsonData)) vocabSet1 w1
                else Some (Inr (), vocabSet1, w1))
           | Some (Response ok NotJson, w1) \<Rightarrow> Some (Inl SyntaxError, vocabSet, w1)
           | Some (Response ok OtherJson, w1) \<Rightarrow> Some (Inl TypeError, vocabSet, w1)))"
  by pat_completeness auto
termination
  by (relation "measure (\<lambda>(unescape, apiToken, nextPage, vocabSet, w). length (responses w))")
     (auto simp: fetch_def split: list.splits)

declare lookupVocab_pages.simps [simp del]

definition lookupVocab ::
  "(jsstring \<Rightarrow> jsstring option) \<Rightarrow> jsval \<Rightarrow> nat option jsset \<Rightarrow> jsstring jsset \<Rightarrow> world
     \<Rightarrow> ((error + unit) \<times> jsstring jsset \<times> world) option" where
  "lookupVocab unescape apiToken subjectIds vocabSet w =
     (let apiEndpointPath = ascii ''subjects?ids='' @ join (map idString subjectIds);
          apiUrlPath = ascii ''https://api.wanikani.com/v2/'' @ apiEndpointPath
      in lookupVocab_pages unescape apiToken apiUrlPath vocabSet w)"

text \<open>
  The loop of \<open>getAssignments\<close>: for each page of assignments a new set of subject
  identifiers, and a complete \<open>lookupVocab\<close> for it. It terminates because every
  \<open>fetch\<close> takes a response and \<open>lookupVocab\<close> gives none back.
\<close>

function getAssignments_pages ::
  "(jsstring \<Rightarrow> jsstring option) \<Rightarrow> jsval \<Rightarrow> jsstring \<Rightarrow> jsstring jsset \<Rightarrow> world
     \<Rightarrow> ((error + unit) \<times> jsstring jsset \<times> world) option" where
  "getAssignments_pages unescape apiToken nextPage knownVocab w =
     (case decodeURIComponent unescape nextPage of
        Inl e \<Rightarrow> Some (Inl e, knownVocab, w)
      | Inr url \<Rightarrow>
          (case fetch url (ascii ''Bearer '' @ toString apiToken) w of
             None \<Rightarrow> None
           | Some (NetworkError, w1) \<Rightarrow> Some (Inl TypeError, knownVocab, console_log w1)
           | Some (Response ok (Json jsonData), w1) \<Rightarrow>
               (let subjectIds = lookupSubjectIds jsonData [] in
                case lookupVocab unescape apiToken subjectIds knownVocab w1 of
                  None \<Rightarrow> None
                | Some (Inl e, knownVocab1, w2) \<Rightarrow> Some (Inl e, knownVocab1, w2)
                | Some (Inr u, knownVocab1, w2) \<Rightarrow>
                    if truthy (next_url jsonData)
                    then getAssignments_pages unescape apiToken (toString (next_url jsonData))
                           knownVocab1 w2
                    else Some (Inr (), knownVocab1, w2))
           | Some (Response ok NotJson, w1) \<Rightarrow> Some (Inl SyntaxError, knownVocab, w1)
           | Some (Response ok OtherJson, w1) \<Rightarrow> Some (Inl TypeError, knownVocab, w1)))"
  by pat_completeness auto
termination
proof -
  have mono: "lookupVocab_pages un tok np vs v = Some (o', vs', v') \<Longrightarrow>
      length (responses v') \<le> length (responses v)" for un tok np vs v o' vs' v'
  proof (induction un tok np vs v rule: lookupVocab_pages.induct)
    case (1 un tok np vs v)
    note run = "1.prems" [unfolded lookupVocab_pages.simps [of un tok np vs v]]
    show ?case
    proof (cases "decodeURIComponent un np")
      case (Inl e)
      with run show ?thesis by simp
    next
      case (Inr url')
      show ?thesis
      proof (cases "responses v")
        case Nil
        with run Inr show ?thesis by (simp add: fetch_def)
      next
        case (Cons x xs)
        define v1 where "v1 = v\<lparr>responses := xs,
            trace := trace v @ [Fetch url' (ascii ''Bearer '' @ toString tok)]\<rparr>"
        have fe: "fetch url' (ascii ''Bearer '' @ toString tok) v = Some (x, v1)"
          by (simp add: fetch_def Cons v1_def)
        have len: "length (responses v1) < length (responses v)"
          by (simp add: v1_def Cons)
        show ?thesis
        proof (cases x)
          case NetworkError
          with run Inr fe len show ?thesis by (auto simp: console_log_def)
        next
          case (Response ok' b')
          show ?thesis
          proof (cases b')
            case (Json jd)
            show ?thesis
            proof (cases "truthy (next_url jd)")
              case True
              from run Inr fe Response Json True
              have "lookupVocab_pages un tok (toString (next_url jd)) (addVocabFromSubjects jd vs) v1 =
                  Some (o', vs', v')"
                by (simp add: Let_def)
              from "1.IH" [OF Inr fe refl Response Json refl True this]
              have "length (responses v') \<le> length (responses v1)" .
              with len show ?thesis by simp
            next
              case False
              with run Inr fe Response Json len show ?thesis
                by (auto simp: Let_def)
            qed
          qed (use run Inr fe Response len in auto)
        qed
      qed
    qed
  qed
  have step: "fetch url auth v = Some (r, v1) \<Longrightarrow> length (responses v1) < length (responses v)"
    for url auth v r v1
    by (auto simp: fetch_def split: list.splits)
  show ?thesis
    by (relation "measure (\<lambda>(unescape, apiToken, nextPage, knownVocab, w). length (responses w))")
       (auto simp: lookupVocab_def Let_def dest!: mono step)
qed

declare getAssignments_pages.simps [simp del]

definition getAssignments ::
  "(jsstring \<Rightarrow> jsstring option) \<Rightarrow> jsval \<Rightarrow> jsstring jsset \<Rightarrow> world
     \<Rightarrow> ((error + unit) \<times> jsstring jsset \<times> world) option" where
  "getAssignments unescape apiToken knownVocab w =
     (let apiEndpointPath =
            ascii ''assignments'' @ ascii ''?'' @ ascii ''srs_stages=5,6,7,8,9'' @ ascii ''&'' @
            ascii ''subject_types=kanji,vocabulary'';
          apiUrlPath = ascii ''https://api.wanikani.com/v2/'' @ apiEndpointPath
      in getAssignments_pages unescape apiToken apiUrlPath knownVocab w)"

section \<open>Notions used in the statements\<close>

subsection \<open>Annotation markup in a definition text\<close>

text \<open>
  \<open>markup b r\<close> is the text \<^verbatim>\<open><ruby><rb>b</rb><rt>r</rt></ruby>\<close>. \<open>parseRuby\<close> reads one
  such annotation at the start of a text, base and reading being the longest runs
  without \<^verbatim>\<open><\<close>, and returns them with the text behind; \<open>bases\<close> lists the bases of the
  annotations that start anywhere in a text.
\<close>

definition markup :: "jsstring \<Rightarrow> jsstring \<Rightarrow> jsstring" where
  "markup base reading =
     ascii ''<ruby><rb>'' @ base @ ascii ''</rb><rt>'' @ reading @ ascii ''</rt></ruby>''"

definition stripPrefix :: "jsstring \<Rightarrow> jsstring \<Rightarrow> jsstring option" where
  "stripPrefix l s = (if prefix l s then Some (drop (length l) s) else None)"

definition parseRuby :: "jsstring \<Rightarrow> (jsstring \<times> jsstring \<times> jsstring) option" where
  "parseRuby s =
     (case stripPrefix (ascii ''<ruby><rb>'') s of
        None \<Rightarrow> None
      | Some s1 \<Rightarrow>
          (case stripPrefix (ascii ''</rb><rt>'') (dropWhile (\<lambda>x. x \<noteq> lt) s1) of
             None \<Rightarrow> None
           | Some s2 \<Rightarrow>
               (case stripPrefix (ascii ''</rt></ruby>'') (dropWhile (\<lambda>x. x \<noteq> lt) s2) of
                  None \<Rightarrow> None
                | Some rest \<Rightarrow>
                    Some (takeWhile (\<lambda>x. x \<noteq> lt) s1, takeWhile (\<lambda>x. x \<noteq> lt) s2, rest))))"

fun bases :: "jsstring \<Rightarrow> jsstring list" where
  "bases [] = []"
| "bases (x # xs) =
     (case parseRuby (x # xs) of None \<Rightarrow> [] | Some (b, r, rest) \<Rightarrow> [b]) @ bases xs"

text \<open>
  A flat definition text: a sequence of runs of plain text and of annotations, none of
  them with a \<^verbatim>\<open><\<close> in its text, base or reading.
\<close>

datatype piece = Plain jsstring | Annotated jsstring jsstring

fun render :: "piece list \<Rightarrow> jsstring" where
  "render [] = []"
| "render (Plain t # ps) = t @ render ps"
| "render (Annotated b r # ps) = markup b r @ render ps"

fun plainPiece :: "piece \<Rightarrow> bool" where
  "plainPiece (Plain t) = (lt \<notin> set t)"
| "plainPiece (Annotated b r) = (lt \<notin> set b \<and> lt \<notin> set r)"

fun rewritePiece :: "jsstring jsset \<Rightarrow> piece \<Rightarrow> piece" where
  "rewritePiece K (Plain t) = Plain t"
| "rewritePiece K (Annotated b r) = (if Set_has K b then Plain b else Annotated b r)"

subsection \<open>What the loop over the annotation elements does\<close>

text \<open>
  \<open>skeleton\<close> forgets the inline visibilities; \<open>visibilityAt\<close> reads the one of the
  element at a path. \<open>knownRubies\<close> are the \<^verbatim>\<open>ruby\<close> elements whose text without the
  reading children is in the set, \<open>firstReading\<close> is the first \<^verbatim>\<open>rt\<close> descendant of the
  element at a path, and \<open>hideTargets\<close> are the first \<^verbatim>\<open>rt\<close> descendants of the known
  \<^verbatim>\<open>ruby\<close> elements. \<open>writes\<close> and \<open>outcome\<close> are the assignments the loop makes
  and how it ends.
\<close>

definition hidden :: jsstring where
  "hidden = ascii ''hidden''"

fun skeleton :: "node \<Rightarrow> node" where
  "skeleton (Text s) = Text s"
| "skeleton (Comment s) = Comment s"
| "skeleton (Element nm vis cs) = Element nm [] (map skeleton cs)"

definition visibilityAt :: "node \<Rightarrow> path \<Rightarrow> jsstring option" where
  "visibilityAt document p =
     (case nodeAt document p of Some (Element nm vis cs) \<Rightarrow> Some vis | _ \<Rightarrow> None)"

definition isKnownAt :: "jsstring jsset \<Rightarrow> node \<Rightarrow> path \<Rightarrow> bool" where
  "isKnownAt knownVocab document p =
     (case nodeAt document p of
        Some foundWord \<Rightarrow> Set_has knownVocab (getTextWithoutRuby foundWord)
      | None \<Rightarrow> False)"

definition knownRubies :: "jsstring jsset \<Rightarrow> node \<Rightarrow> path list" where
  "knownRubies knownVocab document =
     filter (isKnownAt knownVocab document) (querySelectorAll (ascii ''RUBY'') document)"

definition firstReading :: "node \<Rightarrow> path \<Rightarrow> path option" where
  "firstReading document p =
     (case nodeAt document p of
        Some foundWord \<Rightarrow> map_option ((@) p) (querySelector (ascii ''RT'') foundWord)
      | None \<Rightarrow> None)"

definition hideTargets :: "jsstring jsset \<Rightarrow> node \<Rightarrow> path list" where
  "hideTargets knownVocab document =
     List.map_filter (firstReading document) (knownRubies knownVocab document)"

fun writes :: "jsstring jsset \<Rightarrow> path list \<Rightarrow> node \<Rightarrow> path list" where
  "writes K [] d = []"
| "writes K (p # ps) d =
     (if isKnownAt K d p then
        (case firstReading d p of None \<Rightarrow> [] | Some t \<Rightarrow> t # writes K ps d)
      else writes K ps d)"

fun outcome :: "jsstring jsset \<Rightarrow> path list \<Rightarrow> node \<Rightarrow> error + unit" where
  "outcome K [] d = Inr ()"
| "outcome K (p # ps) d =
     (if isKnownAt K d p then
        (case firstReading d p of None \<Rightarrow> Inl TypeError | Some t \<Rightarrow> outcome K ps d)
      else outcome K ps d)"

subsection \<open>Pages fetched one after the other\<close>

text \<open>
  \<open>pagesChain\<close>: a non-empty sequence of pages in which every page but the last names
  a next page (a non-empty string that \<open>decodeURIComponent\<close> accepts) and the last one
  does not. \<open>requests\<close> are the addresses asked for, from a first address on. A round of
  \<open>getAssignments\<close> is a page of assignments with the pages of subjects fetched for
  it; \<open>script\<close> lists the responses of a run in the order of the calls of \<open>fetch\<close>,
  each with a true \<open>ok\<close> flag.
\<close>

definition bearer :: "jsval \<Rightarrow> jsstring" where
  "bearer apiToken = ascii ''Bearer '' @ toString apiToken"

definition decodes :: "(jsstring \<Rightarrow> jsstring option) \<Rightarrow> jsstring \<Rightarrow> bool" where
  "decodes unescape s = (case decodeURIComponent unescape s of Inl e \<Rightarrow> False | Inr url \<Rightarrow> True)"

definition decoded :: "(jsstring \<Rightarrow> jsstring option) \<Rightarrow> jsstring \<Rightarrow> jsstring" where
  "decoded unescape s = (case decodeURIComponent unescape s of Inl e \<Rightarrow> [] | Inr url \<Rightarrow> url)"

fun pagesChain :: "(jsstring \<Rightarrow> jsstring option) \<Rightarrow> collection list \<Rightarrow> bool" where
  "pagesChain unescape [] = False"
| "pagesChain unescape [p] = (\<not> truthy (next_url p))"
| "pagesChain unescape (p # q # ps) =
     (truthy (next_url p) \<and> decodes unescape (toString (next_url p)) \<and> pagesChain unescape (q # ps))"

fun requests :: "(jsstring \<Rightarrow> jsstring option) \<Rightarrow> jsstring \<Rightarrow> collection list \<Rightarrow> jsstring list" where
  "requests unescape url [] = []"
| "requests unescape url (p # ps) =
     decoded unescape url # requests unescape (toString (next_url p)) ps"

definition subjectsUrl :: "nat option jsset \<Rightarrow> jsstring" where
  "subjectsUrl subjectIds =
     ascii ''https://api.wanikani.com/v2/subjects?ids='' @ join (map idString subjectIds)"

definition assignmentsUrl :: jsstring where
  "assignmentsUrl =
     ascii ''https://api.wanikani.com/v2/assignments?srs_stages=5,6,7,8,9&subject_types=kanji,vocabulary''"

type_synonym round = "collection \<times> collection list"

fun script :: "round list \<Rightarrow> response list" where
  "script [] = []"
| "script ((a, sps) # rs) =
     Response True (Json a) # map (\<lambda>p. Response True (Json p)) sps @ script rs"

fun roundsChain :: "(jsstring \<Rightarrow> jsstring option) \<Rightarrow> round list \<Rightarrow> bool" where
  "roundsChain unescape [] = False"
| "roundsChain unescape [(a, sps)] = (pagesChain unescape sps \<and> \<not> truthy (next_url a))"
| "roundsChain unescape ((a, sps) # r # rs) =
     (pagesChain unescape sps \<and> truthy (next_url a) \<and> decodes unescape (toString (next_url a)) \<and>
      roundsChain unescape (r # rs))"

fun roundRequests :: "(jsstring \<Rightarrow> jsstring option) \<Rightarrow> jsstring \<Rightarrow> round list \<Rightarrow> jsstring list" where
  "roundRequests unescape url [] = []"
| "roundRequests unescape url ((a, sps) # rs) =
     decoded unescape url # requests unescape (subjectsUrl (lookupSubjectIds a [])) sps @
     roundRequests unescape (toString (next_url a)) rs"


subsection \<open>Example data\<close>

text \<open>
  The words \<open>nihongo\<close> and \<open>ashita\<close> with their readings and the copula \<open>desu\<close>,
  by their code units; a page with two annotated words; the two characters of Tokyo in
  one annotation element with a reading for each; an annotation element around another
  one, with and without a reading of its own; an annotation without reading.
\<close>

definition nihongo :: jsstring where "nihongo = [0x65E5, 0x672C, 0x8A9E]"

definition nihongo_reading :: jsstring where "nihongo_reading = [0x306B, 0x307B, 0x3093, 0x3054]"

definition desu :: jsstring where "desu = [0x3067, 0x3059]"

definition ashita :: jsstring where "ashita = [0x660E, 0x65E5]"

definition ashita_reading :: jsstring where "ashita_reading = [0x3042, 0x3057, 0x305F]"

definition page :: node where
  "page = Element (ascii ''BODY'') []
     [Element (ascii ''RUBY'') [] [Text nihongo, Element (ascii ''RT'') [] [Text nihongo_reading]],
      Element (ascii ''RUBY'') [] [Text ashita, Element (ascii ''RT'') [] [Text ashita_reading]]]"

definition tokyo :: node where
  "tokyo = Element (ascii ''RUBY'') []
     [Text [0x6771], Element (ascii ''RT'') [] [Text [0x3068, 0x3046]],
      Text [0x4EAC], Element (ascii ''RT'') [] [Text [0x304D, 0x3087, 0x3046]]]"

definition nested :: node where
  "nested = Element (ascii ''RUBY'') []
     [Element (ascii ''RUBY'') [] [Text [0x6771], Element (ascii ''RT'') [] [Text [0x3068, 0x3046]]],
      Text [0x4EAC],
      Element (ascii ''RT'') [] [Text [0x304D, 0x3087, 0x3046]]]"

definition wrapped :: node where
  "wrapped = Element (ascii ''RUBY'') []
     [Element (ascii ''RUBY'') []
        [Text [0x6771, 0x4EAC], Element (ascii ''RT'') [] [Text [0x3068, 0x3046]]]]"

definition bare :: node where
  "bare = Element (ascii ''BODY'') [] [Element (ascii ''RUBY'') [] [Text nihongo]]"

text \<open>
  A browser that accepts no escape sequence at all; a credential; the world of a first
  run (nothing stored, the user enters the credential) and of a later run (the credential
  is stored); the same two records and words on one page and on two; a page with a
  record of a radical at the first stage.
\<close>

definition noEscapes :: "jsstring \<Rightarrow> jsstring option" where
  "noEscapes s = None"

definition token :: jsval where
  "token = Str (ascii ''0a1b2c3d-token'')"

definition firstRun :: "response list \<Rightarrow> world" where
  "firstRun rs = \<lparr>storage = (\<lambda>key. Undefined), userInput = token, responses = rs, trace = []\<rparr>"

definition laterRun :: "response list \<Rightarrow> world" where
  "laterRun rs =
     \<lparr>storage = (\<lambda>key. if key = WK_API_TOKEN then token else Undefined), userInput = Null,
      responses = rs, trace = []\<rparr>"

definition assignmentOf :: "nat \<Rightarrow> nat \<Rightarrow> string \<Rightarrow> resource" where
  "assignmentOf i stage kind =
     AssignmentData \<lparr>subject_id = i, srs_stage = stage, subject_type = ascii kind\<rparr>"

definition subjectOf :: "jsstring \<Rightarrow> resource" where
  "subjectOf s = SubjectData \<lparr>slug = s\<rparr>"

definition onePage :: "round list" where
  "onePage =
     [(\<lparr>data = [assignmentOf 440 5 ''kanji'', assignmentOf 2467 8 ''vocabulary''], next_url = Null\<rparr>,
       [\<lparr>data = [subjectOf nihongo, subjectOf ashita], next_url = Null\<rparr>])]"

definition subjectPages :: "collection list" where
  "subjectPages =
     [\<lparr>data = [subjectOf nihongo],
       next_url = Str (ascii ''https://api.wanikani.com/v2/subjects?page_after_id=2467'')\<rparr>,
      \<lparr>data = [subjectOf nihongo], next_url = Null\<rparr>]"

definition twoPages :: "round list" where
  "twoPages =
     [(\<lparr>data = [assignmentOf 440 5 ''kanji''],
        next_url = Str (ascii ''https://api.wanikani.com/v2/assignments?page_after_id=440'')\<rparr>,
       [\<lparr>data = [subjectOf ashita], next_url = Null\<rparr>]),
      (\<lparr>data = [assignmentOf 2467 8 ''vocabulary''], next_url = Null\<rparr>, subjectPages)]"

definition radicalPage :: "round list" where
  "radicalPage =
     [(\<lparr>data = [assignmentOf 7 1 ''radical''], next_url = Null\<rparr>,
       [\<lparr>data = [], next_url = Null\<rparr>])]"

section \<open>The rewrite of a definition text\<close>

subsection \<open>The pattern matches exactly the annotation markup\<close>

lemma stripPrefix_Nil [simp]: "stripPrefix [] s = Some s"
  by (simp add: stripPrefix_def)

lemma stripPrefix_Cons:
  "stripPrefix (c # l) s = (case s of [] \<Rightarrow> None | x # xs \<Rightarrow> if x = c then stripPrefix l xs else None)"
  by (auto simp: stripPrefix_def split: list.splits)

lemma rmatch_Lits:
  "rmatch (map Lit l @ ts) s n gs ge =
     (case stripPrefix l s of None \<Rightarrow> None | Some s' \<Rightarrow> rmatch ts s' (n + length l) gs ge)"
proof (induction l arbitrary: s n)
  case Nil
  show ?case by simp
next
  case (Cons c l)
  show ?case
    by (cases s) (simp_all add: stripPrefix_Cons Cons.IH split: option.splits)
qed

lemma rmatch_star_lit:
  "rmatch (StarNot c # Lit c # ts) s n gs ge =
     rmatch (Lit c # ts) (dropWhile (\<lambda>x. x \<noteq> c) s) (n + length (takeWhile (\<lambda>x. x \<noteq> c) s)) gs ge"
proof (induction s arbitrary: n)
  case Nil
  show ?case by simp
next
  case (Cons x xs)
  show ?case
    by (cases "rmatch (Lit c # ts) (dropWhile (\<lambda>x. x \<noteq> c) xs) (Suc n + length (takeWhile (\<lambda>x. x \<noteq> c) xs)) gs ge")
       (simp_all add: Cons.IH)
qed

lemma rmatch_star_close_lit:
  "rmatch (StarNot c # GroupClose # Lit c # ts) s n gs ge =
     rmatch (Lit c # ts) (dropWhile (\<lambda>x. x \<noteq> c) s) (n + length (takeWhile (\<lambda>x. x \<noteq> c) s)) gs
       (n + length (takeWhile (\<lambda>x. x \<noteq> c) s))"
proof (induction s arbitrary: n)
  case Nil
  show ?case by simp
next
  case (Cons x xs)
  show ?case
    by (cases "rmatch (Lit c # ts) (dropWhile (\<lambda>x. x \<noteq> c) xs) (Suc n + length (takeWhile (\<lambda>x. x \<noteq> c) xs)) gs
       (Suc n + length (takeWhile (\<lambda>x. x \<noteq> c) xs))")
       (simp_all add: Cons.IH)
qed

lemma rmatch_tagged:
  "rmatch (map Lit l1 @ [GroupOpen, StarNot c, GroupClose] @ map Lit (c # l2) @ [StarNot c] @ map Lit (c # l3)) s 0 gs ge =
     (case stripPrefix l1 s of
        None \<Rightarrow> None
      | Some s1 \<Rightarrow>
          (case stripPrefix (c # l2) (dropWhile (\<lambda>x. x \<noteq> c) s1) of
             None \<Rightarrow> None
           | Some s2 \<Rightarrow>
               (case stripPrefix (c # l3) (dropWhile (\<lambda>x. x \<noteq> c) s2) of
                  None \<Rightarrow> None
                | Some rest \<Rightarrow>
                    Some (length l1 + length (takeWhile (\<lambda>x. x \<noteq> c) s1) + Suc (length l2)
                            + length (takeWhile (\<lambda>x. x \<noteq> c) s2) + Suc (length l3),
                          length l1, length l1 + length (takeWhile (\<lambda>x. x \<noteq> c) s1)))))"
proof -
  have a: "rmatch (Lit c # map Lit l @ ts) u n a b =
     (case stripPrefix (c # l) u of None \<Rightarrow> None | Some s' \<Rightarrow> rmatch ts s' (n + Suc (length l)) a b)"
    for l ts u n a b
    using rmatch_Lits [of "c # l" ts u n a b] by (simp cong: option.case_cong)
  have b: "rmatch (Lit c # map Lit l) u n a b =
     (case stripPrefix (c # l) u of None \<Rightarrow> None | Some s' \<Rightarrow> Some (n + Suc (length l), a, b))"
    for l u n a b
    using a [of l "[]" u n a b] by (simp cong: option.case_cong)
  show ?thesis
    by (simp add: rmatch_Lits rmatch_star_close_lit rmatch_star_lit a b
          del: rmatch.simps(3) split: option.splits)
qed

lemma rmatch_rubyElementMatcherExp:
  "rmatch rubyElementMatcherExp s 0 gs ge =
     (case parseRuby s of
        None \<Rightarrow> None
      | Some (b, r, rest) \<Rightarrow> Some (31 + length b + length r, 10, 10 + length b))"
proof -
  have l2: "ascii ''</rb><rt>'' = lt # ascii ''/rb><rt>''"
   and l3: "ascii ''</rt></ruby>'' = lt # ascii ''/rt></ruby>''"
    by (simp_all add: ascii_def lt_def)
  have len: "length (ascii ''<ruby><rb>'') = 10" "length (ascii ''/rb><rt>'') = 8"
     "length (ascii ''/rt></ruby>'') = 11"
    by (simp_all add: ascii_def)
  show ?thesis
    unfolding rubyElementMatcherExp_def parseRuby_def l2 l3 rmatch_tagged len
    by (simp split: option.splits)
qed

lemma stripPrefix_Some: "stripPrefix l s = Some r \<longleftrightarrow> s = l @ r"
  by (auto simp: stripPrefix_def prefix_def)

lemma parseRuby_Some:
  assumes "parseRuby s = Some (b, r, rest)"
  shows "s = markup b r @ rest \<and> lt \<notin> set b \<and> lt \<notin> set r"
proof -
  from assms obtain s1 s2 where
    1: "s = ascii ''<ruby><rb>'' @ s1"
    and 2: "dropWhile (\<lambda>x. x \<noteq> lt) s1 = ascii ''</rb><rt>'' @ s2"
    and 3: "dropWhile (\<lambda>x. x \<noteq> lt) s2 = ascii ''</rt></ruby>'' @ rest"
    and b: "b = takeWhile (\<lambda>x. x \<noteq> lt) s1" and r: "r = takeWhile (\<lambda>x. x \<noteq> lt) s2"
    by (auto simp: parseRuby_def stripPrefix_Some split: option.splits)
  have "s1 = b @ ascii ''</rb><rt>'' @ s2"
    using takeWhile_dropWhile_id [of "\<lambda>x. x \<noteq> lt" s1] 2 b by simp
  moreover have "s2 = r @ ascii ''</rt></ruby>'' @ rest"
    using takeWhile_dropWhile_id [of "\<lambda>x. x \<noteq> lt" s2] 3 r by simp
  moreover have "lt \<notin> set b" "lt \<notin> set r"
    using b r by (auto dest: set_takeWhileD)
  ultimately show ?thesis using 1 by (simp add: markup_def)
qed

lemma dropWhile_until: "c \<notin> set u \<Longrightarrow> dropWhile (\<lambda>x. x \<noteq> c) (u @ c # v) = c # v"
  by (induction u) auto

lemma takeWhile_until: "c \<notin> set u \<Longrightarrow> takeWhile (\<lambda>x. x \<noteq> c) (u @ c # v) = u"
  by (induction u) auto

lemma parseRuby_markup:
  assumes "lt \<notin> set b" "lt \<notin> set r"
  shows "parseRuby (markup b r @ rest) = Some (b, r, rest)"
proof -
  have l2: "ascii ''</rb><rt>'' = lt # ascii ''/rb><rt>''"
   and l3: "ascii ''</rt></ruby>'' = lt # ascii ''/rt></ruby>''"
    by (simp_all add: ascii_def lt_def)
  have p1: "stripPrefix (ascii ''<ruby><rb>'') (markup b r @ rest) =
      Some (b @ lt # ascii ''/rb><rt>'' @ r @ lt # ascii ''/rt></ruby>'' @ rest)"
    by (simp add: stripPrefix_Some markup_def l2 l3)
  have p2: "stripPrefix (lt # l) (lt # l @ v) = Some v" for v l
    by (simp add: stripPrefix_Some)
  show ?thesis
    unfolding parseRuby_def p1 l2 l3
    by (simp add: p2 dropWhile_until takeWhile_until assms)
qed

subsection \<open>No match reaches into a following annotation\<close>

lemma no_overlap1:
  assumes "0 < k" "k < 10"
  shows "\<not> prefix (drop k (ascii ''<ruby><rb>'')) (ascii ''<ruby><rb>'' @ y)"
proof -
  from assms have "k \<in> {1, 2, 3, 4, 5, 6, 7, 8, 9}" by auto
  then show ?thesis by (auto simp: ascii_def)
qed

lemma no_overlap2:
  assumes "0 < k" "k < 9"
  shows "\<not> prefix (drop k (ascii ''</rb><rt>'')) (ascii ''<ruby><rb>'' @ y)"
proof -
  from assms have "k \<in> {1, 2, 3, 4, 5, 6, 7, 8}" by auto
  then show ?thesis by (auto simp: ascii_def)
qed

lemma no_overlap3:
  assumes "0 < k" "k < 12"
  shows "\<not> prefix (drop k (ascii ''</rt></ruby>'')) (ascii ''<ruby><rb>'' @ y)"
proof -
  from assms have "k \<in> {1, 2, 3, 4, 5, 6, 7, 8, 9, 10, 11}" by simp arith
  then show ?thesis by (auto simp: ascii_def)
qed

lemma stripPrefix_append_gen:
  assumes "s \<noteq> []" and no: "\<And>k. 0 < k \<Longrightarrow> k < length l \<Longrightarrow> \<not> prefix (drop k l) x"
  shows "stripPrefix l (s @ x) = map_option (\<lambda>t. t @ x) (stripPrefix l s)"
proof (cases "prefix l s")
  case True
  then obtain t where "s = l @ t" by (auto simp: prefix_def)
  then show ?thesis by (simp add: stripPrefix_def)
next
  case False
  have "\<not> prefix l (s @ x)"
  proof
    assume "prefix l (s @ x)"
    then have "prefix l s \<or> (\<exists>us. l = s @ us \<and> prefix us x)"
      by (simp add: prefix_append)
    with False obtain us where us: "l = s @ us" "prefix us x" by blast
    with False have "us \<noteq> []" by auto
    then have "0 < length s" "length s < length l" "drop (length s) l = us"
      using us assms(1) by auto
    with no [of "length s"] us show False by simp
  qed
  with False show ?thesis by (simp add: stripPrefix_def)
qed

lemma len_tags:
  "length (ascii ''<ruby><rb>'') = 10" "length (ascii ''</rb><rt>'') = 9"
  "length (ascii ''</rt></ruby>'') = 12"
  by (simp_all add: ascii_def)

lemma markup_starts: "markup b r @ post = ascii ''<ruby><rb>'' @ (b @ ascii ''</rb><rt>'' @ r @ ascii ''</rt></ruby>'' @ post)"
  by (simp add: markup_def)

lemma markup_Cons: "\<exists>y. markup b r @ post = lt # y"
  by (simp add: markup_def ascii_def lt_def)

lemma stripPrefix_open_append:
  "s \<noteq> [] \<Longrightarrow> stripPrefix (ascii ''<ruby><rb>'') (s @ markup b r @ post) =
     map_option (\<lambda>t. t @ markup b r @ post) (stripPrefix (ascii ''<ruby><rb>'') s)"
  unfolding markup_starts
  by (rule stripPrefix_append_gen, assumption, rule no_overlap1) (simp_all add: len_tags)

lemma stripPrefix_mid_append:
  "s \<noteq> [] \<Longrightarrow> stripPrefix (ascii ''</rb><rt>'') (s @ markup b r @ post) =
     map_option (\<lambda>t. t @ markup b r @ post) (stripPrefix (ascii ''</rb><rt>'') s)"
  unfolding markup_starts
  by (rule stripPrefix_append_gen, assumption, rule no_overlap2) (simp_all add: len_tags)

lemma stripPrefix_close_append:
  "s \<noteq> [] \<Longrightarrow> stripPrefix (ascii ''</rt></ruby>'') (s @ markup b r @ post) =
     map_option (\<lambda>t. t @ markup b r @ post) (stripPrefix (ascii ''</rt></ruby>'') s)"
  unfolding markup_starts
  by (rule stripPrefix_append_gen, assumption, rule no_overlap3) (simp_all add: len_tags)

lemma stripPrefix_mid_markup: "stripPrefix (ascii ''</rb><rt>'') (markup b r @ post) = None"
  by (simp add: stripPrefix_def markup_def ascii_def)

lemma stripPrefix_close_markup: "stripPrefix (ascii ''</rt></ruby>'') (markup b r @ post) = None"
  by (simp add: stripPrefix_def markup_def ascii_def)

lemma dropWhile_append_lt:
  "dropWhile (\<lambda>x. x \<noteq> lt) (t @ lt # y) = (if lt \<in> set t then dropWhile (\<lambda>x. x \<noteq> lt) t @ lt # y else lt # y)"
  by (induction t) auto

lemma takeWhile_append_lt:
  "takeWhile (\<lambda>x. x \<noteq> lt) (t @ lt # y) = takeWhile (\<lambda>x. x \<noteq> lt) t"
  by (induction t) auto

lemma dropWhile_Nil_iff: "dropWhile (\<lambda>x. x \<noteq> c) t = [] \<longleftrightarrow> c \<notin> set t"
  by (induction t) auto

lemma stage_mid:
  "stripPrefix (ascii ''</rb><rt>'') (dropWhile (\<lambda>x. x \<noteq> lt) (t @ markup b r @ post)) =
     map_option (\<lambda>u. u @ markup b r @ post) (stripPrefix (ascii ''</rb><rt>'') (dropWhile (\<lambda>x. x \<noteq> lt) t))"
proof -
  obtain y where y: "markup b r @ post = lt # y" using markup_Cons by blast
  show ?thesis
  proof (cases "lt \<in> set t")
    case True
    then have "dropWhile (\<lambda>x. x \<noteq> lt) t \<noteq> []" by auto
    then show ?thesis
      using True stripPrefix_mid_append [of "dropWhile (\<lambda>x. x \<noteq> lt) t" b r post]
      by (simp add: y dropWhile_append_lt)
  next
    case False
    then have "dropWhile (\<lambda>x. x \<noteq> lt) t = []" by auto
    moreover have "stripPrefix (ascii ''</rb><rt>'') [] = None"
      by (simp add: stripPrefix_def ascii_def)
    moreover have "dropWhile (\<lambda>x. x \<noteq> lt) (t @ markup b r @ post) = markup b r @ post"
      using False by (simp add: y dropWhile_append_lt)
    ultimately show ?thesis
      by (simp only: stripPrefix_mid_markup option.map)
  qed
qed

lemma stage_close:
  "stripPrefix (ascii ''</rt></ruby>'') (dropWhile (\<lambda>x. x \<noteq> lt) (t @ markup b r @ post)) =
     map_option (\<lambda>u. u @ markup b r @ post) (stripPrefix (ascii ''</rt></ruby>'') (dropWhile (\<lambda>x. x \<noteq> lt) t))"
proof -
  obtain y where y: "markup b r @ post = lt # y" using markup_Cons by blast
  show ?thesis
  proof (cases "lt \<in> set t")
    case True
    then have "dropWhile (\<lambda>x. x \<noteq> lt) t \<noteq> []" by auto
    then show ?thesis
      using True stripPrefix_close_append [of "dropWhile (\<lambda>x. x \<noteq> lt) t" b r post]
      by (simp add: y dropWhile_append_lt)
  next
    case False
    then have "dropWhile (\<lambda>x. x \<noteq> lt) t = []" by auto
    moreover have "stripPrefix (ascii ''</rt></ruby>'') [] = None"
      by (simp add: stripPrefix_def ascii_def)
    moreover have "dropWhile (\<lambda>x. x \<noteq> lt) (t @ markup b r @ post) = markup b r @ post"
      using False by (simp add: y dropWhile_append_lt)
    ultimately show ?thesis
      by (simp only: stripPrefix_close_markup option.map)
  qed
qed

lemma takeWhile_append_markup:
  "takeWhile (\<lambda>x. x \<noteq> lt) (t @ markup b r @ post) = takeWhile (\<lambda>x. x \<noteq> lt) t"
proof -
  obtain y where y: "markup b r @ post = lt # y" using markup_Cons by blast
  show ?thesis by (simp add: y takeWhile_append_lt)
qed

lemma parseRuby_append_markup:
  assumes "s \<noteq> []"
  shows "parseRuby (s @ markup b r @ post) =
     map_option (\<lambda>(b', r', rest). (b', r', rest @ markup b r @ post)) (parseRuby s)"
  unfolding parseRuby_def
  by (simp add: stripPrefix_open_append [OF assms] stage_mid stage_close takeWhile_append_markup
        split: option.splits)

subsection \<open>The rewrite, annotation by annotation\<close>

lemma parseRuby_Nil [simp]: "parseRuby [] = None"
  by (simp add: parseRuby_def stripPrefix_def ascii_def)

lemma length_markup: "length (markup b r) = 31 + length b + length r"
  by (simp add: markup_def ascii_def)

lemma rewriteDef_Nil [simp]: "rewriteDef K [] = []"
  by (simp add: rewriteDef_def rmatch_rubyElementMatcherExp)

lemma replaceAll_match:
  assumes "rmatch re s 0 0 0 = Some (e, gs, ge)" "e \<noteq> 0" "s \<noteq> []"
  shows "replaceAll re f s = f (take e s) (take (ge - gs) (drop gs s)) @ replaceAll re f (drop e s)"
  using assms by (cases s) simp_all

lemma rewriteDef_Cons:
  "rewriteDef K (x # xs) =
     (case parseRuby (x # xs) of
        None \<Rightarrow> x # rewriteDef K xs
      | Some (b, r, rest) \<Rightarrow> (if Set_has K b then b else markup b r) @ rewriteDef K rest)"
proof (cases "parseRuby (x # xs)")
  case None
  then show ?thesis
    by (simp add: rewriteDef_def rmatch_rubyElementMatcherExp)
next
  case (Some t)
  obtain b r rest where t: "t = (b, r, rest)" by (cases t)
  define s where "s = x # xs"
  from parseRuby_Some [OF Some [unfolded t]]
  have s: "s = markup b r @ rest" by (simp add: s_def)
  have m: "markup b r = ascii ''<ruby><rb>'' @ b @ (ascii ''</rb><rt>'' @ r @ ascii ''</rt></ruby>'')"
    by (simp add: markup_def)
  have 1: "take (31 + length b + length r) s = markup b r"
    unfolding s by (simp add: length_markup)
  have 2: "drop (31 + length b + length r) s = rest"
    unfolding s by (simp add: length_markup)
  have 3: "take (length b) (drop 10 s) = b"
    unfolding s m by (simp add: len_tags)
  have ne: "s \<noteq> []" by (simp add: s_def)
  have ps: "parseRuby s = Some (b, r, rest)" using Some t by (simp add: s_def)
  have rm: "rmatch rubyElementMatcherExp s 0 0 0 = Some (31 + length b + length r, 10, 10 + length b)"
    by (simp add: rmatch_rubyElementMatcherExp ps)
  have "rewriteDef K s = (if Set_has K b then b else markup b r) @ rewriteDef K rest"
    unfolding rewriteDef_def
    by (subst replaceAll_match [OF rm _ ne]) (simp_all add: 1 2 3)
  then show ?thesis
    using Some t by (simp add: s_def)
qed

lemma rewriteDef_markup_head:
  "lt \<notin> set b \<Longrightarrow> lt \<notin> set r \<Longrightarrow>
   rewriteDef K (markup b r @ post) = (if Set_has K b then b else markup b r) @ rewriteDef K post"
proof -
  assume a: "lt \<notin> set b" "lt \<notin> set r"
  obtain y where y: "markup b r @ post = lt # y" using markup_Cons by blast
  show ?thesis
    using rewriteDef_Cons [of K lt y] parseRuby_markup [OF a, of post]
    by (simp add: y [symmetric])
qed

lemma parseRuby_shorter:
  "parseRuby s = Some (b, r, rest) \<Longrightarrow> length rest < length s"
  by (drule parseRuby_Some) (simp add: length_markup)

lemma rewriteDef_append_markup:
  "rewriteDef K (pre @ markup b r @ post) = rewriteDef K pre @ rewriteDef K (markup b r @ post)"
proof (induction "length pre" arbitrary: pre rule: less_induct)
  case less
  show ?case
  proof (cases pre)
    case Nil
    then show ?thesis by simp
  next
    case (Cons x xs)
    have p: "parseRuby ((x # xs) @ markup b r @ post) =
       map_option (\<lambda>(b', r', rest). (b', r', rest @ markup b r @ post)) (parseRuby (x # xs))"
      by (rule parseRuby_append_markup) simp
    show ?thesis
    proof (cases "parseRuby (x # xs)")
      case None
      have "rewriteDef K (xs @ markup b r @ post) = rewriteDef K xs @ rewriteDef K (markup b r @ post)"
        by (rule less) (simp add: Cons)
      then show ?thesis
        using p None unfolding Cons by (simp add: rewriteDef_Cons)
    next
      case (Some t)
      obtain b' r' rest where t: "t = (b', r', rest)" by (cases t)
      have "length rest < length pre"
        using parseRuby_shorter [OF Some [unfolded t]] Cons by simp
      then have "rewriteDef K (rest @ markup b r @ post) = rewriteDef K rest @ rewriteDef K (markup b r @ post)"
        by (rule less)
      then show ?thesis
        using p Some unfolding Cons t by (simp add: rewriteDef_Cons)
    qed
  qed
qed

lemma bases_iff:
  "b \<in> set (bases s) \<longleftrightarrow>
     (\<exists>pre r post. s = pre @ markup b r @ post \<and> lt \<notin> set b \<and> lt \<notin> set r)"
proof (induction s)
  case Nil
  have "markup b r \<noteq> []" for r by (simp add: markup_def ascii_def)
  then show ?case by simp
next
  case (Cons x xs)
  show ?case
  proof
    assume "b \<in> set (bases (x # xs))"
    then consider r rest where "parseRuby (x # xs) = Some (b, r, rest)" | "b \<in> set (bases xs)"
      by (cases "parseRuby (x # xs)") auto
    then show "\<exists>pre r post. x # xs = pre @ markup b r @ post \<and> lt \<notin> set b \<and> lt \<notin> set r"
    proof cases
      case 1
      from parseRuby_Some [OF 1] show ?thesis by (metis append_Nil)
    next
      case 2
      with Cons obtain pre r post where "xs = pre @ markup b r @ post" "lt \<notin> set b" "lt \<notin> set r"
        by blast
      then have "x # xs = (x # pre) @ markup b r @ post \<and> lt \<notin> set b \<and> lt \<notin> set r" by simp
      then show ?thesis by blast
    qed
  next
    assume "\<exists>pre r post. x # xs = pre @ markup b r @ post \<and> lt \<notin> set b \<and> lt \<notin> set r"
    then obtain pre r post where e: "x # xs = pre @ markup b r @ post" and f: "lt \<notin> set b" "lt \<notin> set r"
      by blast
    show "b \<in> set (bases (x # xs))"
    proof (cases pre)
      case Nil
      with e parseRuby_markup [OF f, of post] have "parseRuby (x # xs) = Some (b, r, post)"
        by simp
      then show ?thesis by simp
    next
      case (Cons y ys)
      with e have "xs = ys @ markup b r @ post" by simp
      with f Cons.IH have "b \<in> set (bases xs)" by blast
      then show ?thesis by simp
    qed
  qed
qed

lemma rewriteDef_unknown:
  "set (bases d) \<inter> set K = {} \<Longrightarrow> rewriteDef K d = d"
proof (induction "length d" arbitrary: d rule: less_induct)
  case less
  show ?case
  proof (cases d)
    case Nil
    then show ?thesis by simp
  next
    case (Cons x xs)
    show ?thesis
    proof (cases "parseRuby (x # xs)")
      case None
      have "set (bases xs) \<inter> set K = {}" using less.prems Cons by auto
      then have "rewriteDef K xs = xs" using less.hyps [of xs] Cons by simp
      then show ?thesis using None Cons by (simp add: rewriteDef_Cons)
    next
      case (Some t)
      obtain b r rest where t: "t = (b, r, rest)" by (cases t)
      note P = parseRuby_Some [OF Some [unfolded t]]
      have "b \<in> set (bases d)" using Some t Cons by simp
      then have nb: "b \<notin> set K" using less.prems by auto
      have "set (bases rest) \<subseteq> set (bases d)"
      proof
        fix c assume "c \<in> set (bases rest)"
        then obtain pre r' post where "rest = pre @ markup c r' @ post" "lt \<notin> set c" "lt \<notin> set r'"
          unfolding bases_iff by blast
        then have "d = (markup b r @ pre) @ markup c r' @ post \<and> lt \<notin> set c \<and> lt \<notin> set r'"
          using P Cons by simp
        then show "c \<in> set (bases d)" unfolding bases_iff by blast
      qed
      then have "set (bases rest) \<inter> set K = {}" using less.prems by auto
      moreover have "length rest < length d"
        using parseRuby_shorter [OF Some [unfolded t]] Cons by simp
      ultimately have "rewriteDef K rest = rest" using less.hyps by blast
      then show ?thesis
        using nb P Cons rewriteDef_markup_head [of b r K rest] by (simp add: Set_has_def)
    qed
  qed
qed

lemma parseRuby_not_lt: "lt \<noteq> x \<Longrightarrow> parseRuby (x # xs) = None"
  by (simp add: parseRuby_def stripPrefix_def ascii_def lt_def)

lemma rewriteDef_plain: "lt \<notin> set t \<Longrightarrow> rewriteDef K (t @ s) = t @ rewriteDef K s"
  by (induction t) (simp_all add: rewriteDef_Cons parseRuby_not_lt)

lemma rewriteDef_render:
  "list_all plainPiece ps \<Longrightarrow> rewriteDef K (render ps) = render (map (rewritePiece K) ps)"
proof (induction ps)
  case Nil
  show ?case by simp
next
  case (Cons p ps)
  then show ?case
  proof (cases p)
    case (Plain t)
    with Cons show ?thesis by (simp add: rewriteDef_plain)
  next
    case (Annotated b r)
    with Cons show ?thesis
      using rewriteDef_plain [of b K "render (map (rewritePiece K) ps)"]
      by (simp add: rewriteDef_markup_head)
  qed
qed

lemma plainPiece_rewritePiece: "plainPiece p \<Longrightarrow> plainPiece (rewritePiece K p)"
  by (cases p) simp_all

lemma rewritePiece_twice: "rewritePiece K (rewritePiece K p) = rewritePiece K p"
  by (cases p) simp_all

lemma lt_free_examples:
  "lt \<notin> set nihongo" "lt \<notin> set nihongo_reading" "lt \<notin> set desu"
  "lt \<notin> set ashita" "lt \<notin> set ashita_reading"
  by (simp_all add: lt_def nihongo_def nihongo_reading_def desu_def ashita_def ashita_reading_def)

text \<open>
  Claim C2. The rewrite of a definition text is a function of the text and the known
  set alone. Wherever the text holds an annotation \<^verbatim>\<open><ruby><rb>b</rb><rt>r</rt></ruby>\<close>
  (base and reading without \<^verbatim>\<open><\<close>, as the pattern has them), the result is the rewrite of
  the text before it, then \<open>b\<close> alone if \<open>b\<close> is known and the unchanged annotation if
  not, then the rewrite of the text behind it. A text that holds no annotation with a
  known base is returned as it is. The witness is the example
  \<^verbatim>\<open><ruby><rb>nihongo</rb><rt>...</rt></ruby>desu\<close> with \<open>nihongo\<close> known, and the
  same sentence with the unknown \<open>ashita\<close>.
\<close>

theorem rewriteDef_occurrences:
  "(lt \<notin> set b \<and> lt \<notin> set r \<longrightarrow>
      rewriteDef K (pre @ markup b r @ post) =
        rewriteDef K pre @ (if Set_has K b then b else markup b r) @ rewriteDef K post) \<and>
   ((\<forall>pre b r post. d = pre @ markup b r @ post \<and> lt \<notin> set b \<and> lt \<notin> set r \<longrightarrow> \<not> Set_has K b) \<longrightarrow>
      rewriteDef K d = d)"
proof (intro conjI impI)
  assume "lt \<notin> set b \<and> lt \<notin> set r"
  then show "rewriteDef K (pre @ markup b r @ post) =
        rewriteDef K pre @ (if Set_has K b then b else markup b r) @ rewriteDef K post"
    by (simp add: rewriteDef_append_markup [of K pre] rewriteDef_markup_head)
next
  assume "\<forall>pre b r post. d = pre @ markup b r @ post \<and> lt \<notin> set b \<and> lt \<notin> set r \<longrightarrow> \<not> Set_has K b"
  then have "set (bases d) \<inter> set K = {}"
    unfolding Set_has_def using bases_iff [of _ d] by blast
  then show "rewriteDef K d = d" by (rule rewriteDef_unknown)
qed

theorem rewriteDef_occurrences_witness:
  "rewriteDef [nihongo] (markup nihongo nihongo_reading @ desu) = nihongo @ desu \<and>
   rewriteDef [nihongo] (markup ashita ashita_reading @ desu) = markup ashita ashita_reading @ desu"
proof
  have "rewriteDef [nihongo] desu = desu"
    by (simp add: desu_def rewriteDef_Cons parseRuby_not_lt lt_def)
  then show "rewriteDef [nihongo] (markup nihongo nihongo_reading @ desu) = nihongo @ desu"
    using rewriteDef_occurrences [of nihongo nihongo_reading "[nihongo]" "[]" desu "[]"]
    by (simp add: lt_free_examples Set_has_def)
next
  have b: "bases (markup ashita ashita_reading @ desu) = [ashita]"
    by (simp add: markup_def ascii_def ashita_def ashita_reading_def desu_def parseRuby_def
        stripPrefix_def lt_def)
  have "\<forall>pre b r post.
      markup ashita ashita_reading @ desu = pre @ markup b r @ post \<and> lt \<notin> set b \<and> lt \<notin> set r \<longrightarrow>
      \<not> Set_has [nihongo] b"
  proof (intro allI impI)
    fix pre b r post
    assume "markup ashita ashita_reading @ desu = pre @ markup b r @ post \<and> lt \<notin> set b \<and> lt \<notin> set r"
    then have "b \<in> set (bases (markup ashita ashita_reading @ desu))"
      unfolding bases_iff by blast
    then have "b = ashita" by (simp only: b) simp
    then show "\<not> Set_has [nihongo] b"
      by (simp add: Set_has_def ashita_def nihongo_def)
  qed
  then show "rewriteDef [nihongo] (markup ashita ashita_reading @ desu) = markup ashita ashita_reading @ desu"
    using rewriteDef_occurrences [of ashita ashita_reading "[nihongo]" "[]" desu
        "markup ashita ashita_reading @ desu"]
    by blast
qed

text \<open>
  Claim C10, as stated: rewriting twice gives the same text as rewriting once, for every
  text. It fails where a known annotation stands in the reading of another one: the first
  pass removes the inner markup, and only then does the outer annotation match.
\<close>

theorem rewriteDef_twice_counterexample:
  "rewriteDef [nihongo] (rewriteDef [nihongo] (markup nihongo (markup nihongo nihongo_reading)))
     \<noteq> rewriteDef [nihongo] (markup nihongo (markup nihongo nihongo_reading))"
proof -
  have pre: "rewriteDef [nihongo] (ascii ''<ruby><rb>'' @ nihongo @ ascii ''</rb><rt>'') =
      ascii ''<ruby><rb>'' @ nihongo @ ascii ''</rb><rt>''"
    by (simp add: ascii_def nihongo_def rewriteDef_Cons parseRuby_def stripPrefix_def lt_def)
  have post: "rewriteDef [nihongo] (ascii ''</rt></ruby>'') = ascii ''</rt></ruby>''"
    by (simp add: ascii_def rewriteDef_Cons parseRuby_def stripPrefix_def lt_def)
  have s: "markup nihongo (markup nihongo nihongo_reading) =
      (ascii ''<ruby><rb>'' @ nihongo @ ascii ''</rb><rt>'') @ markup nihongo nihongo_reading @ ascii ''</rt></ruby>''"
    by (simp add: markup_def)
  have once: "rewriteDef [nihongo] (markup nihongo (markup nihongo nihongo_reading)) = markup nihongo nihongo"
    unfolding s rewriteDef_append_markup
    by (simp add: pre post rewriteDef_markup_head lt_free_examples Set_has_def)
       (simp add: markup_def)
  have twice: "rewriteDef [nihongo] (markup nihongo nihongo) = nihongo"
    using rewriteDef_markup_head [of nihongo nihongo "[nihongo]" "[]"]
    by (simp add: lt_free_examples Set_has_def)
  have "markup nihongo nihongo \<noteq> nihongo"
    by (simp add: markup_def ascii_def nihongo_def)
  then show ?thesis by (simp add: once twice)
qed

text \<open>
  Claim C10, amended: on a flat definition text (runs of plain text and annotations,
  with no \<^verbatim>\<open><\<close> in a text, a base or a reading) rewriting twice gives the same text as
  rewriting once.
\<close>

theorem rewriteDef_twice_flat:
  "list_all plainPiece ps \<Longrightarrow>
   rewriteDef K (rewriteDef K (render ps)) = rewriteDef K (render ps)"
proof -
  assume a: "list_all plainPiece ps"
  then have "list_all plainPiece (map (rewritePiece K) ps)"
    by (induction ps) (simp_all add: plainPiece_rewritePiece)
  then have "rewriteDef K (render (map (rewritePiece K) ps)) =
      render (map (rewritePiece K) (map (rewritePiece K) ps))"
    by (rule rewriteDef_render)
  then show ?thesis
    by (simp add: rewriteDef_render [OF a] rewritePiece_twice comp_def)
qed

theorem rewriteDef_twice_flat_witness:
  "rewriteDef [nihongo]
     (rewriteDef [nihongo] (render [Annotated nihongo nihongo_reading, Plain desu,
                                    Annotated ashita ashita_reading])) =
   nihongo @ desu @ markup ashita ashita_reading"
proof -
  let ?ps = "[Annotated nihongo nihongo_reading, Plain desu, Annotated ashita ashita_reading]"
  have ok: "list_all plainPiece ?ps" by (simp add: lt_free_examples)
  have ne: "ashita \<noteq> nihongo" by (simp add: ashita_def nihongo_def)
  have "rewriteDef [nihongo] (render ?ps) = render (map (rewritePiece [nihongo]) ?ps)"
    by (rule rewriteDef_render [OF ok])
  also have "\<dots> = nihongo @ desu @ markup ashita ashita_reading"
    by (simp add: Set_has_def ne)
  finally have "rewriteDef [nihongo] (render ?ps) = nihongo @ desu @ markup ashita ashita_reading" .
  then show ?thesis
    using rewriteDef_twice_flat [OF ok, of "[nihongo]"] by simp
qed

section \<open>The loop over the annotation elements\<close>

subsection \<open>Visibility does not influence what the loop reads\<close>

lemma skeleton_setVisibility [simp]: "skeleton (setVisibility v p n) = skeleton n"
proof (induction v p n rule: setVisibility.induct)
  case (2 v i p nm vis cs)
  then show ?case by (simp add: map_update list_update_same_conv)
qed simp_all

lemma descendantText_skeleton [simp]: "descendantText (skeleton n) = descendantText n"
  by (induction n rule: descendantText.induct) (simp_all cong: map_cong)

lemma textContent_skeleton [simp]: "textContent (skeleton n) = textContent n"
  by (cases n) (simp_all cong: map_cong add: comp_def)

lemma nodeName_skeleton [simp]: "nodeName (skeleton n) = nodeName n"
  by (cases n) simp_all

lemma isTextNode_skeleton [simp]: "isTextNode (skeleton n) = isTextNode n"
  by (cases n) simp_all

lemma childNodes_skeleton [simp]: "childNodes (skeleton n) = map skeleton (childNodes n)"
  by (cases n) simp_all

lemma foldl_text_skeleton:
  "foldl (\<lambda>result childNode.
              result @ (if isTextNode childNode \<or> nodeName childNode \<noteq> nm
                        then textContent childNode else [])) acc (map skeleton cs) =
   foldl (\<lambda>result childNode.
              result @ (if isTextNode childNode \<or> nodeName childNode \<noteq> nm
                        then textContent childNode else [])) acc cs"
  by (induction cs arbitrary: acc) simp_all

lemma getTextWithoutRuby_skeleton [simp]: "getTextWithoutRuby (skeleton n) = getTextWithoutRuby n"
  by (simp add: getTextWithoutRuby_def foldl_text_skeleton)

lemma selectAll_skeleton:
  "selectAll nm (skeleton n) = selectAll nm n"
  "selectAllFrom nm i (map skeleton cs) = selectAllFrom nm i cs"
  by (induction nm n and nm i cs rule: selectAll_selectAllFrom.induct) simp_all

lemma querySelector_skeleton [simp]: "querySelector nm (skeleton n) = querySelector nm n"
  by (simp add: querySelector_def selectAll_skeleton)

lemma querySelectorAll_skeleton [simp]: "querySelectorAll nm (skeleton n) = querySelectorAll nm n"
  by (simp add: querySelectorAll_def selectAll_skeleton)

lemma nodeAt_skeleton: "nodeAt (skeleton n) p = map_option skeleton (nodeAt n p)"
  by (induction n p rule: nodeAt.induct) simp_all

lemma same_skeleton_querySelectorAll:
  "skeleton d = skeleton e \<Longrightarrow> querySelectorAll nm d = querySelectorAll nm e"
  using querySelectorAll_skeleton by metis

subsection \<open>Paths\<close>

lemma nodeAt_append:
  "nodeAt n (p @ q) = (case nodeAt n p of None \<Rightarrow> None | Some m \<Rightarrow> nodeAt m q)"
  by (induction n p rule: nodeAt.induct) simp_all

lemma selectAll_nodeAt:
  "q \<in> set (selectAll nm n) \<Longrightarrow> \<exists>vis cs. nodeAt n q = Some (Element nm vis cs)"
  "q \<in> set (selectAllFrom nm i cs) \<Longrightarrow>
     \<exists>j q' vis cs'. q = (i + j) # q' \<and> j < length cs \<and> nodeAt (cs ! j) q' = Some (Element nm vis cs')"
proof (induction nm n and nm i cs arbitrary: q and q rule: selectAll_selectAllFrom.induct)
  case (3 name nm vis cs)
  show ?case
  proof (cases "q = []")
    case True
    with 3 show ?thesis by (auto split: if_splits)
  next
    case False
    with 3(2) have "q \<in> set (selectAllFrom name 0 cs)" by (auto split: if_splits)
    from 3(1) [OF this] show ?thesis by auto
  qed
next
  case (5 name i c cs)
  from 5(3) consider q' where "q = i # q'" "q' \<in> set (selectAll name c)"
    | "q \<in> set (selectAllFrom name (Suc i) cs)" by auto
  then show ?case
  proof cases
    case 1
    from 5(1) [OF 1(2)] 1(1) show ?thesis by (intro exI [of _ 0]) auto
  next
    case 2
    from 5(2) [OF 2] obtain j q' vis cs' where
      "q = (Suc i + j) # q'" "j < length cs" "nodeAt (cs ! j) q' = Some (Element name vis cs')"
      by blast
    then show ?thesis by (intro exI [of _ "Suc j"]) auto
  qed
qed simp_all

lemma querySelectorAll_nodeAt:
  "p \<in> set (querySelectorAll nm d) \<Longrightarrow> \<exists>vis cs. nodeAt d p = Some (Element nm vis cs)"
  unfolding querySelectorAll_def by (rule selectAll_nodeAt(1))

lemma setVisibility_leaf:
  "setVisibility v p (Text s) = Text s" "setVisibility v p (Comment s) = Comment s"
  by (cases p; simp)+

lemma visibilityAt_leaf:
  "visibilityAt (Text s) p = None" "visibilityAt (Comment s) p = None"
  by (cases p; simp add: visibilityAt_def)+

lemma visibilityAt_setVisibility:
  "visibilityAt (setVisibility v p n) t =
     (if t = p \<and> visibilityAt n p \<noteq> None then Some v else visibilityAt n t)"
proof (induction v p n arbitrary: t rule: setVisibility.induct)
  case (1 v nm vis cs)
  show ?case by (cases t) (simp_all add: visibilityAt_def)
next
  case (2 v i p nm vis cs)
  show ?case
  proof (cases t)
    case Nil
    then show ?thesis by (simp add: visibilityAt_def)
  next
    case (Cons j t')
    show ?thesis
    proof (cases "i < length cs")
      case True
      from 2 [OF True, of t'] show ?thesis
        unfolding Cons using True
        by (cases "j = i") (simp_all add: visibilityAt_def)
    next
      case False
      then show ?thesis unfolding Cons by (simp add: visibilityAt_def)
    qed
  qed
qed (simp_all add: setVisibility_leaf visibilityAt_leaf)

lemma setVisibility_twice: "setVisibility v p (setVisibility v p n) = setVisibility v p n"
proof (induction v p n rule: setVisibility.induct)
  case (2 v i p nm vis cs)
  then show ?case by simp
qed simp_all

lemma setVisibility_commute:
  "setVisibility v p (setVisibility v q n) = setVisibility v q (setVisibility v p n)"
proof (induction v p n arbitrary: q rule: setVisibility.induct)
  case (1 v nm vis cs)
  show ?case by (cases q) simp_all
next
  case (2 v i p nm vis cs)
  show ?case
  proof (cases q)
    case Nil
    then show ?thesis by simp
  next
    case (Cons j q')
    show ?thesis
    proof (cases "i < length cs")
      case True
      show ?thesis
      proof (cases "j = i")
        case True
        with 2 [OF \<open>i < length cs\<close>, of q'] \<open>i < length cs\<close> show ?thesis
          unfolding Cons by simp
      next
        case False
        then show ?thesis unfolding Cons using True
          by (simp add: list_update_swap)
      qed
    next
      case False
      then show ?thesis unfolding Cons by simp
    qed
  qed
qed (simp_all add: setVisibility_leaf)

lemma foldl_setVisibility_commute:
  "setVisibility v t (foldl (\<lambda>d t. setVisibility v t d) d ws) =
   foldl (\<lambda>d t. setVisibility v t d) (setVisibility v t d) ws"
  by (induction ws arbitrary: d) (simp_all add: setVisibility_commute)

lemma foldl_setVisibility_absorb:
  "t \<in> set ws \<Longrightarrow>
   setVisibility v t (foldl (\<lambda>d t. setVisibility v t d) d ws) = foldl (\<lambda>d t. setVisibility v t d) d ws"
proof (induction ws arbitrary: d)
  case Nil
  then show ?case by simp
next
  case (Cons w ws)
  show ?case
  proof (cases "t = w")
    case True
    then show ?thesis
      by (simp add: foldl_setVisibility_commute setVisibility_twice)
  next
    case False
    with Cons show ?thesis by simp
  qed
qed

lemma foldl_setVisibility_again:
  "set us \<subseteq> set ws \<Longrightarrow>
   foldl (\<lambda>d t. setVisibility v t d) (foldl (\<lambda>d t. setVisibility v t d) d ws) us =
   foldl (\<lambda>d t. setVisibility v t d) d ws"
  by (induction us) (simp_all add: foldl_setVisibility_absorb)

lemma skeleton_foldl_setVisibility [simp]:
  "skeleton (foldl (\<lambda>d t. setVisibility v t d) d ws) = skeleton d"
  by (induction ws arbitrary: d) simp_all

lemma visibilityAt_foldl:
  "visibilityAt (foldl (\<lambda>d t. setVisibility v t d) d ws) t =
     (if t \<in> set ws \<and> visibilityAt d t \<noteq> None then Some v else visibilityAt d t)"
proof (induction ws arbitrary: d)
  case Nil
  show ?case by simp
next
  case (Cons w ws)
  show ?case
    by (auto simp: Cons.IH visibilityAt_setVisibility)
qed

subsection \<open>The loop in closed form\<close>

lemma isKnownAt_skeleton: "isKnownAt K (skeleton d) p = isKnownAt K d p"
  by (simp add: isKnownAt_def nodeAt_skeleton split: option.splits)

lemma firstReading_skeleton: "firstReading (skeleton d) p = firstReading d p"
  by (simp add: firstReading_def nodeAt_skeleton split: option.splits)

lemma forEachRuby_step:
  "forEachRuby K (p # ps) d =
     (if isKnownAt K d p then
        (case firstReading d p of
           None \<Rightarrow> (Inl TypeError, d)
         | Some t \<Rightarrow> forEachRuby K ps (setVisibility (ascii ''hidden'') t d))
      else forEachRuby K ps d)"
  by (simp add: isKnownAt_def firstReading_def split: option.splits)

lemma forEachRuby_char:
  "skeleton d = skeleton e \<Longrightarrow>
   forEachRuby K ps d = (outcome K ps e, foldl (\<lambda>d t. setVisibility hidden t d) d (writes K ps e))"
proof (induction ps arbitrary: d)
  case Nil
  show ?case by simp
next
  case (Cons p ps)
  have k: "isKnownAt K d p = isKnownAt K e p"
    using Cons.prems isKnownAt_skeleton by metis
  have f: "firstReading d p = firstReading e p"
    using Cons.prems firstReading_skeleton by metis
  show ?case
  proof (cases "isKnownAt K e p")
    case False
    then show ?thesis
      using Cons.IH [OF Cons.prems] by (simp add: forEachRuby_step k del: forEachRuby.simps)
  next
    case True
    show ?thesis
    proof (cases "firstReading e p")
      case None
      then show ?thesis using True
        by (simp add: forEachRuby_step k f del: forEachRuby.simps)
    next
      case (Some t)
      have "skeleton (setVisibility hidden t d) = skeleton e" using Cons.prems by simp
      from Cons.IH [OF this] show ?thesis using True Some
        by (simp add: forEachRuby_step k f hidden_def del: forEachRuby.simps)
    qed
  qed
qed

lemma findRubyInPage_char:
  "findRubyInPage K d =
     (outcome K (querySelectorAll (ascii ''RUBY'') d) d,
      foldl (\<lambda>d t. setVisibility hidden t d) d (writes K (querySelectorAll (ascii ''RUBY'') d) d))"
  unfolding findRubyInPage_def by (rule forEachRuby_char) simp

lemma loop_complete:
  "\<forall>p \<in> set (filter (isKnownAt K d) ps). firstReading d p \<noteq> None \<Longrightarrow>
   outcome K ps d = Inr () \<and>
   writes K ps d = List.map_filter (firstReading d) (filter (isKnownAt K d) ps)"
  by (induction ps) (auto split: option.splits)

lemma loop_throws:
  "p \<in> set ps \<Longrightarrow> isKnownAt K d p \<Longrightarrow> firstReading d p = None \<Longrightarrow>
   outcome K ps d = Inl TypeError"
  by (induction ps) (auto split: option.splits)

lemma firstReading_element:
  assumes "firstReading d p = Some t"
  shows "visibilityAt d t \<noteq> None"
proof -
  from assms obtain fw q where fw: "nodeAt d p = Some fw"
    and q: "querySelector (ascii ''RT'') fw = Some q" and t: "t = p @ q"
    by (auto simp: firstReading_def split: option.splits)
  from q have "q \<in> set (selectAllFrom (ascii ''RT'') 0 (childNodes fw))"
    by (auto simp: querySelector_def split: list.splits)
  from selectAll_nodeAt(2) [OF this] obtain j q' vis cs' where
    j: "q = j # q'" "j < length (childNodes fw)"
       "nodeAt (childNodes fw ! j) q' = Some (Element (ascii ''RT'') vis cs')"
    by auto
  then have "nodeAt fw q = Some (Element (ascii ''RT'') vis cs')"
    by (cases fw) simp_all
  then show ?thesis
    by (simp add: visibilityAt_def t nodeAt_append fw)
qed

lemmas dom_eval = findRubyInPage_def querySelectorAll_def querySelector_def
  getTextWithoutRuby_def Set_has_def ascii_def hidden_def visibilityAt_def isKnownAt_def
  knownRubies_def firstReading_def hideTargets_def
  nihongo_def nihongo_reading_def ashita_def ashita_reading_def

text \<open>
  What the loop does, in closed form: if every annotation element with a known base text
  has an \<^verbatim>\<open>rt\<close> descendant, the run completes and changes nothing but inline visibilities;
  it sets to \<^verbatim>\<open>hidden\<close> the first \<^verbatim>\<open>rt\<close> descendant (in document order) of each such
  element, and no other element.
\<close>

theorem findRubyInPage_hides:
  assumes "\<forall>p \<in> set (knownRubies K d). firstReading d p \<noteq> None"
  shows "\<exists>d'. findRubyInPage K d = (Inr (), d') \<and> skeleton d' = skeleton d \<and>
           (\<forall>t. visibilityAt d' t =
                  (if t \<in> set (hideTargets K d) then Some hidden else visibilityAt d t))"
proof -
  define ps where "ps = querySelectorAll (ascii ''RUBY'') d"
  from assms have "\<forall>p \<in> set (filter (isKnownAt K d) ps). firstReading d p \<noteq> None"
    by (simp add: knownRubies_def ps_def)
  from loop_complete [OF this]
  have o: "outcome K ps d = Inr ()" and w: "writes K ps d = hideTargets K d"
    by (simp_all add: hideTargets_def knownRubies_def ps_def)
  have el: "visibilityAt d t \<noteq> None" if "t \<in> set (hideTargets K d)" for t
  proof -
    from that obtain p where "firstReading d p = Some t"
      by (auto simp: hideTargets_def List.map_filter_def)
    then show ?thesis by (rule firstReading_element)
  qed
  show ?thesis
    using el by (auto simp: findRubyInPage_char ps_def [symmetric] o w visibilityAt_foldl)
qed

theorem findRubyInPage_hides_witness:
  "\<exists>d'. findRubyInPage [nihongo] page = (Inr (), d') \<and>
        skeleton d' = skeleton page \<and>
        visibilityAt d' [0, 1] = Some hidden \<and> visibilityAt d' [1, 1] = Some []"
proof -
  have k: "knownRubies [nihongo] page = [[0]]"
    by (simp add: dom_eval page_def)
  have f: "firstReading page [0] = Some [0, 1]"
    by (simp add: dom_eval page_def)
  have h: "hideTargets [nihongo] page = [[0, 1]]"
    by (simp add: hideTargets_def k f)
  have v: "visibilityAt page [1, 1] = Some []"
    by (simp add: dom_eval page_def)
  have "\<forall>p \<in> set (knownRubies [nihongo] page). firstReading page p \<noteq> None"
    by (simp add: k f)
  from findRubyInPage_hides [OF this] obtain d' where
    d: "findRubyInPage [nihongo] page = (Inr (), d')" "skeleton d' = skeleton page"
       "\<And>t. visibilityAt d' t =
          (if t \<in> set (hideTargets [nihongo] page) then Some hidden
           else visibilityAt page t)"
    by blast
  from d(3) [of "[0, 1]"] d(3) [of "[1, 1]"] d(1, 2) v show ?thesis
    by (simp add: h)
qed

text \<open>
  Claim C1: after the run exactly the annotation elements with a known base text have
  their reading hidden, and the others are untouched. The code does not achieve this.
  \<open>getTextWithoutRuby\<close> takes every \<^verbatim>\<open>rt\<close> child as reading, but \<open>findRubyInPage\<close>
  hides only what \<open>querySelector\<close> gives, the first \<^verbatim>\<open>rt\<close> descendant. In \<open>tokyo\<close>,
  the annotation of a word of two characters with a reading for each, the base text is
  the word; with the word known the run hides the first reading and leaves the second
  one visible.
\<close>

theorem findRubyInPage_two_readings:
  "getTextWithoutRuby tokyo = [0x6771, 0x4EAC] \<and>
   findRubyInPage [[0x6771, 0x4EAC]] tokyo =
     (Inr (),
      Element (ascii ''RUBY'') []
        [Text [0x6771], Element (ascii ''RT'') hidden [Text [0x3068, 0x3046]],
         Text [0x4EAC], Element (ascii ''RT'') [] [Text [0x304D, 0x3087, 0x3046]]])"
  by (simp add: dom_eval tokyo_def)

text \<open>
  The same disagreement in \<open>nested\<close>, with the base text of the outer element as the
  only known word: the outer element keeps its own reading child (path 2) visible, while
  the reading child (path 0, 1) of the inner element, which is not known and whose
  reading was counted as base text of the outer one, is hidden.
\<close>

theorem findRubyInPage_nested_counterexample:
  "fst (findRubyInPage [[0x6771, 0x3068, 0x3046, 0x4EAC]] nested) = Inr () \<and>
   isKnownAt [[0x6771, 0x3068, 0x3046, 0x4EAC]] nested [] \<and>
   visibilityAt (snd (findRubyInPage [[0x6771, 0x3068, 0x3046, 0x4EAC]] nested)) [2] = Some [] \<and>
   [0] \<in> set (querySelectorAll (ascii ''RUBY'') nested) \<and>
   \<not> isKnownAt [[0x6771, 0x3068, 0x3046, 0x4EAC]] nested [0] \<and>
   visibilityAt nested [0, 1] = Some [] \<and>
   visibilityAt (snd (findRubyInPage [[0x6771, 0x3068, 0x3046, 0x4EAC]] nested)) [0, 1] = Some hidden"
  by (simp add: dom_eval nested_def)

text \<open>
  Claim C6. Running \<open>findRubyInPage\<close> on the document that a first run has left gives
  the same document again, and ends the same way; this holds for every document and
  every known set, also when the run ends with an error.
\<close>

theorem findRubyInPage_idempotent:
  "findRubyInPage K (snd (findRubyInPage K d)) = findRubyInPage K d"
proof -
  define ps where "ps = querySelectorAll (ascii ''RUBY'') d"
  define d1 where "d1 = foldl (\<lambda>d t. setVisibility hidden t d) d (writes K ps d)"
  have 1: "findRubyInPage K d = (outcome K ps d, d1)"
    by (simp add: findRubyInPage_char ps_def d1_def)
  have s: "skeleton d1 = skeleton d" by (simp add: d1_def)
  then have q: "querySelectorAll (ascii ''RUBY'') d1 = ps"
    unfolding ps_def by (rule same_skeleton_querySelectorAll)
  have "findRubyInPage K d1 =
      (outcome K ps d, foldl (\<lambda>d t. setVisibility hidden t d) d1 (writes K ps d))"
    unfolding findRubyInPage_def q by (rule forEachRuby_char) (rule s)
  also have "foldl (\<lambda>d t. setVisibility hidden t d) d1 (writes K ps d) = d1"
    unfolding d1_def by (rule foldl_setVisibility_again) simp
  finally show ?thesis by (simp add: 1)
qed

theorem findRubyInPage_idempotent_witness:
  "findRubyInPage [nihongo] (snd (findRubyInPage [nihongo] bare)) =
     (Inl TypeError, bare)"
proof -
  have "findRubyInPage [nihongo] bare = (Inl TypeError, bare)"
    by (simp add: dom_eval bare_def)
  then show ?thesis
    using findRubyInPage_idempotent [of "[nihongo]" bare] by simp
qed

text \<open>
  Claim C9, as stated: an annotation element with a known base text and no \<^verbatim>\<open>rt\<close> child
  makes the run fail. In \<open>wrapped\<close> the outer element is known and has no \<^verbatim>\<open>rt\<close> child,
  yet the run completes: \<open>querySelector\<close> finds the \<^verbatim>\<open>rt\<close> of the inner element.
\<close>

theorem findRubyInPage_throws_counterexample:
  "[] \<in> set (querySelectorAll (ascii ''RUBY'') wrapped) \<and>
   Set_has [[0x6771, 0x4EAC, 0x3068, 0x3046]] (getTextWithoutRuby wrapped) \<and>
   filter (\<lambda>c. nodeName c = ascii ''RT'') (childNodes wrapped) = [] \<and>
   fst (findRubyInPage [[0x6771, 0x4EAC, 0x3068, 0x3046]] wrapped) = Inr ()"
  by (simp add: dom_eval wrapped_def)

text \<open>
  Claim C9, amended: if the document has an annotation element with a known base text and
  no \<^verbatim>\<open>rt\<close> descendant, the run does not complete: it ends with \<open>TypeError\<close>.
\<close>

theorem findRubyInPage_throws:
  assumes "p \<in> set (querySelectorAll (ascii ''RUBY'') d)" and "nodeAt d p = Some foundWord"
    and "Set_has K (getTextWithoutRuby foundWord)"
    and "querySelector (ascii ''RT'') foundWord = None"
  shows "fst (findRubyInPage K d) = Inl TypeError"
proof -
  have "isKnownAt K d p" "firstReading d p = None"
    using assms by (simp_all add: isKnownAt_def firstReading_def)
  with assms(1) show ?thesis
    by (simp add: findRubyInPage_char loop_throws)
qed

theorem findRubyInPage_throws_witness:
  "fst (findRubyInPage [nihongo] bare) = Inl TypeError"
proof (rule findRubyInPage_throws [of "[0]" bare "Element (ascii ''RUBY'') [] [Text nihongo]"])
  show "[0] \<in> set (querySelectorAll (ascii ''RUBY'') bare)"
    by (simp add: dom_eval bare_def)
  show "nodeAt bare [0] = Some (Element (ascii ''RUBY'') [] [Text nihongo])"
    by (simp add: bare_def)
  show "Set_has [nihongo]
          (getTextWithoutRuby (Element (ascii ''RUBY'') [] [Text nihongo]))"
    by (simp add: dom_eval)
  show "querySelector (ascii ''RT'') (Element (ascii ''RUBY'') [] [Text nihongo]) = None"
    by (simp add: dom_eval)
qed

section \<open>The credential\<close>

lemma decodes_decoded: "decodes unescape s \<Longrightarrow> decodeURIComponent unescape s = Inr (decoded unescape s)"
  by (simp add: decodes_def decoded_def split: sum.splits)

lemma no_percent_decodes: "percent \<notin> set s \<Longrightarrow> decodes unescape s \<and> decoded unescape s = s"
  by (simp add: decodes_def decoded_def decodeURIComponent_def)

lemma getApiToken_accepted:
  assumes "\<not> truthy (storage w WK_API_TOKEN)" "responses w = Response True b # rs"
  shows "getApiToken unescape w =
     Some (Inr (userInput w),
       w\<lparr>storage := (storage w)(WK_API_TOKEN := userInput w), responses := rs,
         trace := trace w @
           [Prompt (ascii ''Please enter your WaniKani API Token to continue:''),
            Fetch (ascii ''https://api.wanikani.com/v2/voice_actors'') (bearer (userInput w)),
            SetValue WK_API_TOKEN (userInput w)]\<rparr>)"
proof -
  have "percent \<notin> set (ascii ''https://api.wanikani.com/v2/voice_actors'')"
    by (simp add: ascii_def percent_def)
  then have "decodeURIComponent unescape (ascii ''https://api.wanikani.com/v2/voice_actors'') =
      Inr (ascii ''https://api.wanikani.com/v2/voice_actors'')"
    by (simp add: decodeURIComponent_def)
  with assms show ?thesis
    by (simp add: getApiToken_def prompt_def fetch_def GM_setValue_def bearer_def)
qed

lemma getApiToken_rejected:
  assumes "\<not> truthy (storage w WK_API_TOKEN)" "responses w = Response False b # rs"
  shows "getApiToken unescape w =
     Some (Inr Undefined,
       w\<lparr>responses := rs,
         trace := trace w @
           [Prompt (ascii ''Please enter your WaniKani API Token to continue:''),
            Fetch (ascii ''https://api.wanikani.com/v2/voice_actors'') (bearer (userInput w))]\<rparr>)"
proof -
  have "percent \<notin> set (ascii ''https://api.wanikani.com/v2/voice_actors'')"
    by (simp add: ascii_def percent_def)
  then have "decodeURIComponent unescape (ascii ''https://api.wanikani.com/v2/voice_actors'') =
      Inr (ascii ''https://api.wanikani.com/v2/voice_actors'')"
    by (simp add: decodeURIComponent_def)
  with assms show ?thesis
    by (simp add: getApiToken_def prompt_def fetch_def bearer_def)
qed

lemma getApiToken_failed_fetch:
  assumes "\<not> truthy (storage w WK_API_TOKEN)" "responses w = NetworkError # rs"
  shows "getApiToken unescape w =
     Some (Inl TypeError,
       w\<lparr>responses := rs,
         trace := trace w @
           [Prompt (ascii ''Please enter your WaniKani API Token to continue:''),
            Fetch (ascii ''https://api.wanikani.com/v2/voice_actors'') (bearer (userInput w)),
            ConsoleLog]\<rparr>)"
proof -
  have "percent \<notin> set (ascii ''https://api.wanikani.com/v2/voice_actors'')"
    by (simp add: ascii_def percent_def)
  then have "decodeURIComponent unescape (ascii ''https://api.wanikani.com/v2/voice_actors'') =
      Inr (ascii ''https://api.wanikani.com/v2/voice_actors'')"
    by (simp add: decodeURIComponent_def)
  with assms show ?thesis
    by (simp add: getApiToken_def prompt_def fetch_def bearer_def console_log_def)
qed

text \<open>
  Claim C4. With no stored credential, an accepted token is stored and returned
  (\<open>getApiToken_accepted\<close>) and a rejected one leaves the storage as it is and gives
  \<open>undefined\<close> (\<open>getApiToken_rejected\<close>). When the validation request fails in the
  network, however, the run does not give \<open>undefined\<close>: it ends with \<open>TypeError\<close>.
  Nothing is stored.
\<close>

theorem getApiToken_network_error:
  "getApiToken unescape (firstRun [NetworkError]) =
     Some (Inl TypeError,
       \<lparr>storage = (\<lambda>key. Undefined), userInput = token, responses = [],
        trace = [Prompt (ascii ''Please enter your WaniKani API Token to continue:''),
                 Fetch (ascii ''https://api.wanikani.com/v2/voice_actors'') (bearer token),
                 ConsoleLog]\<rparr>)"
  using getApiToken_failed_fetch [of "firstRun [NetworkError]" "[]" unescape]
  by (simp add: firstRun_def)

text \<open>
  Claim C8. If the stored credential is present (a non-empty string), \<open>getApiToken\<close>
  returns it and leaves the world as it is: no prompt, no request, no write to the
  storage, whatever responses the network would give.
\<close>

theorem getApiToken_stored:
  "truthy (storage w WK_API_TOKEN) \<Longrightarrow>
   getApiToken unescape w = Some (Inr (storage w WK_API_TOKEN), w)"
  by (simp add: getApiToken_def)

theorem getApiToken_stored_witness:
  "getApiToken noEscapes (laterRun []) = Some (Inr token, laterRun []) \<and>
   trace (laterRun []) = [] \<and> storage (laterRun []) WK_API_TOKEN = token"
  using getApiToken_stored [of "laterRun []" noEscapes]
  by (simp add: laterRun_def token_def ascii_def)

section \<open>The paginated lookups\<close>

subsection \<open>Sets\<close>

lemma Set_add_set [simp]: "set (Set_add s x) = insert x (set s)"
  by (auto simp: Set_add_def)

lemma Set_add_distinct [simp]: "distinct s \<Longrightarrow> distinct (Set_add s x)"
  by (auto simp: Set_add_def)

lemma foldl_Set_add_set: "set (foldl (\<lambda>s y. Set_add s (f y)) s ys) = set s \<union> f ` set ys"
  by (induction ys arbitrary: s) auto


lemma lookupSubjectIds_set:
  "set (lookupSubjectIds a ids) = set ids \<union> subject_id_of ` set (data a)"
  by (simp add: lookupSubjectIds_def foldl_Set_add_set)








subsection \<open>The addresses the script builds have no escape sequences\<close>

lemma digit_not_special: "d < 10 \<Longrightarrow> digit d \<noteq> percent"
proof -
  assume "d < 10"
  then have "d \<in> {0, 1, 2, 3, 4, 5, 6, 7, 8, 9}" by simp arith
  then show ?thesis by (auto simp: digit_def percent_def)
qed

lemma percent_Number_toString: "percent \<notin> set (Number_toString n)"
proof (induction n rule: Number_toString.induct)
  case (1 n)
  show ?case
  proof (cases "n < 10")
    case True
    then show ?thesis
      using digit_not_special [of n] by (subst Number_toString.simps) auto
  next
    case False
    have "n mod 10 < 10" by simp
    then have "digit (n mod 10) \<noteq> percent" by (rule digit_not_special)
    with False 1 show ?thesis
      by (subst Number_toString.simps) auto
  qed
qed

lemma percent_join: "\<forall>s \<in> set ss. percent \<notin> set s \<Longrightarrow> percent \<notin> set (join ss)"
  by (induction ss rule: join.induct) (auto simp: ascii_def percent_def)

lemma percent_subjectsUrl: "percent \<notin> set (subjectsUrl ids)"
proof -
  have "percent \<notin> set (idString i)" for i
    by (cases i) (simp_all add: percent_Number_toString)
  then have "percent \<notin> set (join (map idString ids))"
    by (intro percent_join) simp
  then show ?thesis
    by (simp add: subjectsUrl_def) (simp add: ascii_def percent_def)
qed

lemma percent_assignmentsUrl: "percent \<notin> set assignmentsUrl"
  by (simp add: assignmentsUrl_def ascii_def percent_def)

lemma lookupVocab_subjectsUrl:
  "lookupVocab unescape tok ids vs w = lookupVocab_pages unescape tok (subjectsUrl ids) vs w"
  by (simp add: lookupVocab_def subjectsUrl_def Let_def ascii_def)

lemma getAssignments_assignmentsUrl:
  "getAssignments unescape tok kv w = getAssignments_pages unescape tok assignmentsUrl kv w"
  by (simp add: getAssignments_def assignmentsUrl_def Let_def ascii_def)

lemma requests_subjectsUrl_Cons:
  "requests unescape (subjectsUrl ids) (p # ps) =
     subjectsUrl ids # requests unescape (toString (next_url p)) ps"
  by (simp add: no_percent_decodes percent_subjectsUrl)

subsection \<open>A run over a chain of pages\<close>

lemma lookupVocab_pages_run:
  assumes "pagesChain unescape sps" "decodes unescape url"
    and "responses w = map (\<lambda>p. Response True (Json p)) sps @ rest"
  shows "lookupVocab_pages unescape tok url vs w =
     Some (Inr (), foldl (\<lambda>s p. addVocabFromSubjects p s) vs sps,
           w\<lparr>responses := rest,
             trace := trace w @ map (\<lambda>u. Fetch u (bearer tok)) (requests unescape url sps)\<rparr>)"
  using assms
proof (induction sps arbitrary: url vs w)
  case Nil
  then show ?case by simp
next
  case (Cons p ps)
  define w1 where "w1 = w\<lparr>responses := map (\<lambda>p. Response True (Json p)) ps @ rest,
      trace := trace w @ [Fetch (decoded unescape url) (bearer tok)]\<rparr>"
  have f: "fetch (decoded unescape url) (ascii ''Bearer '' @ toString tok) w =
      Some (Response True (Json p), w1)"
    using Cons.prems(3) by (simp add: fetch_def w1_def bearer_def)
  show ?case
  proof (cases ps)
    case Nil
    with Cons.prems f show ?thesis
      by (subst lookupVocab_pages.simps)
         (simp add: decodes_decoded Let_def w1_def)
  next
    case (Cons q qs)
    with Cons.prems have t: "truthy (next_url p)" and d: "decodes unescape (toString (next_url p))"
      and c: "pagesChain unescape ps" by simp_all
    have r: "responses w1 = map (\<lambda>p. Response True (Json p)) ps @ rest"
      by (simp add: w1_def)
    from Cons.IH [OF c d r, of "addVocabFromSubjects p vs"] Cons.prems f t show ?thesis
      by (subst lookupVocab_pages.simps)
         (simp add: decodes_decoded Let_def w1_def)
  qed
qed

lemma getAssignments_pages_run:
  assumes "roundsChain unescape rs" "decodes unescape url"
    and "responses w = script rs @ rest"
  shows "getAssignments_pages unescape tok url kv w =
     Some (Inr (), foldl (\<lambda>s p. addVocabFromSubjects p s) kv (concat (map snd rs)),
           w\<lparr>responses := rest,
             trace := trace w @ map (\<lambda>u. Fetch u (bearer tok)) (roundRequests unescape url rs)\<rparr>)"
  using assms
proof (induction rs arbitrary: url kv w)
  case Nil
  then show ?case by simp
next
  case (Cons r rs)
  obtain a sps where r: "r = (a, sps)" by (cases r)
  define ids where "ids = lookupSubjectIds a []"
  define w1 where "w1 = w\<lparr>responses := map (\<lambda>p. Response True (Json p)) sps @ script rs @ rest,
      trace := trace w @ [Fetch (decoded unescape url) (bearer tok)]\<rparr>"
  define kv1 where "kv1 = foldl (\<lambda>s p. addVocabFromSubjects p s) kv sps"
  define w2 where "w2 = w1\<lparr>responses := script rs @ rest,
      trace := trace w1 @ map (\<lambda>u. Fetch u (bearer tok)) (requests unescape (subjectsUrl ids) sps)\<rparr>"
  have f: "fetch (decoded unescape url) (ascii ''Bearer '' @ toString tok) w =
      Some (Response True (Json a), w1)"
    using Cons.prems(3) by (simp add: fetch_def w1_def bearer_def r)
  have pc: "pagesChain unescape sps"
    using Cons.prems(1) unfolding r by (cases rs) simp_all
  have l: "lookupVocab unescape tok ids kv w1 = Some (Inr (), kv1, w2)"
    unfolding lookupVocab_subjectsUrl kv1_def w2_def
    by (rule lookupVocab_pages_run [OF pc]) (simp_all add: no_percent_decodes percent_subjectsUrl w1_def)
  show ?case
  proof (cases rs)
    case Nil
    with Cons.prems have "\<not> truthy (next_url a)" by (simp add: r)
    with f l show ?thesis
      unfolding r
      by (subst getAssignments_pages.simps)
         (simp add: decodes_decoded [OF Cons.prems(2)] Let_def ids_def [symmetric] kv1_def w2_def w1_def Nil)
  next
    case (Cons r' rs')
    with Cons.prems have t: "truthy (next_url a)" and d: "decodes unescape (toString (next_url a))"
      and c: "roundsChain unescape rs" by (simp_all add: r)
    have "responses w2 = script rs @ rest" by (simp add: w2_def)
    from Cons.IH [OF c d this, of kv1] f l t show ?thesis
      unfolding r
      by (subst getAssignments_pages.simps)
         (simp add: decodes_decoded [OF Cons.prems(2)] Let_def ids_def [symmetric] kv1_def w2_def w1_def)
  qed
qed

lemma length_requests [simp]: "length (requests unescape url ps) = length ps"
  by (induction ps arbitrary: url) simp_all

lemma length_roundRequests: "length (roundRequests unescape url rs) = length (script rs)"
  by (induction rs arbitrary: url) auto

lemma example_urls:
  "percent \<notin> set (ascii ''https://api.wanikani.com/v2/assignments?page_after_id=440'')"
  "percent \<notin> set (ascii ''https://api.wanikani.com/v2/subjects?page_after_id=2467'')"
  by (simp_all add: ascii_def percent_def)

lemma example_urls_nonempty:
  "ascii ''https://api.wanikani.com/v2/assignments?page_after_id=440'' \<noteq> []"
  "ascii ''https://api.wanikani.com/v2/subjects?page_after_id=2467'' \<noteq> []"
  by (simp_all add: ascii_def)

lemma example_chains:
  "roundsChain noEscapes onePage" "roundsChain noEscapes twoPages" "roundsChain noEscapes radicalPage"
  by (simp_all add: onePage_def twoPages_def subjectPages_def radicalPage_def no_percent_decodes example_urls
      example_urls_nonempty)



text \<open>
  Claim C7. If the responses begin with a chain of successfully fetched pages, both
  loops return. They have then taken exactly the responses of the chain, up to and
  including the page without next address, and what follows it is still there; the
  trace has grown by one request per page, and by nothing else.
\<close>

theorem pagination_terminates:
  "(pagesChain unescape sps \<and> responses w = map (\<lambda>p. Response True (Json p)) sps @ rest \<longrightarrow>
      (\<exists>vs' w'. lookupVocab unescape tok ids vs w = Some (Inr (), vs', w') \<and> responses w' = rest \<and>
         trace w' = trace w @ map (\<lambda>u. Fetch u (bearer tok)) (requests unescape (subjectsUrl ids) sps) \<and>
         length (trace w') = length (trace w) + length sps)) \<and>
   (roundsChain unescape rs \<and> responses w = script rs @ rest \<longrightarrow>
      (\<exists>kv' w'. getAssignments unescape tok kv w = Some (Inr (), kv', w') \<and> responses w' = rest \<and>
         trace w' = trace w @ map (\<lambda>u. Fetch u (bearer tok)) (roundRequests unescape assignmentsUrl rs) \<and>
         length (trace w') = length (trace w) + length (script rs)))"
proof (intro conjI impI)
  assume a: "pagesChain unescape sps \<and> responses w = map (\<lambda>p. Response True (Json p)) sps @ rest"
  have d: "decodes unescape (subjectsUrl ids)"
    by (simp add: no_percent_decodes percent_subjectsUrl)
  from a have c: "pagesChain unescape sps"
    and r: "responses w = map (\<lambda>p. Response True (Json p)) sps @ rest" by simp_all
  show "\<exists>vs' w'. lookupVocab unescape tok ids vs w = Some (Inr (), vs', w') \<and> responses w' = rest \<and>
         trace w' = trace w @ map (\<lambda>u. Fetch u (bearer tok)) (requests unescape (subjectsUrl ids) sps) \<and>
         length (trace w') = length (trace w) + length sps"
    unfolding lookupVocab_subjectsUrl lookupVocab_pages_run [OF c d r]
    by simp
next
  assume a: "roundsChain unescape rs \<and> responses w = script rs @ rest"
  have d: "decodes unescape assignmentsUrl"
    by (simp add: no_percent_decodes percent_assignmentsUrl)
  from a have c: "roundsChain unescape rs" and r: "responses w = script rs @ rest" by simp_all
  show "\<exists>kv' w'. getAssignments unescape tok kv w = Some (Inr (), kv', w') \<and> responses w' = rest \<and>
         trace w' = trace w @ map (\<lambda>u. Fetch u (bearer tok)) (roundRequests unescape assignmentsUrl rs) \<and>
         length (trace w') = length (trace w) + length (script rs)"
    unfolding getAssignments_assignmentsUrl getAssignments_pages_run [OF c d r]
    by (simp add: length_roundRequests)
qed

theorem pagination_terminates_witness:
  "(\<exists>vs' w'. lookupVocab noEscapes token [Some 2467] []
       (laterRun (map (\<lambda>p. Response True (Json p)) subjectPages @ [NetworkError])) =
       Some (Inr (), vs', w') \<and>
     responses w' = [NetworkError] \<and> length (trace w') = 2) \<and>
   (\<exists>kv' w'. getAssignments noEscapes token []
       (laterRun (script twoPages @ [NetworkError])) = Some (Inr (), kv', w') \<and>
     responses w' = [NetworkError] \<and> length (trace w') = 5 \<and>
     trace w' =
       [Fetch assignmentsUrl (bearer token),
        Fetch (ascii ''https://api.wanikani.com/v2/subjects?ids=440'') (bearer token),
        Fetch (ascii ''https://api.wanikani.com/v2/assignments?page_after_id=440'') (bearer token),
        Fetch (ascii ''https://api.wanikani.com/v2/subjects?ids=2467'') (bearer token),
        Fetch (ascii ''https://api.wanikani.com/v2/subjects?page_after_id=2467'') (bearer token)])"
proof -
  let ?sps = subjectPages
  have c: "pagesChain noEscapes ?sps"
    by (simp add: subjectPages_def no_percent_decodes example_urls example_urls_nonempty)
  have r': "responses (laterRun (map (\<lambda>p. Response True (Json p)) ?sps @ [NetworkError])) =
      map (\<lambda>p. Response True (Json p)) ?sps @ [NetworkError]"
    by (simp add: laterRun_def)
  have t': "trace (laterRun (map (\<lambda>p. Response True (Json p)) ?sps @ [NetworkError])) = []"
    by (simp add: laterRun_def)
  have l': "length ?sps = 2" by (simp add: subjectPages_def)
  have r: "responses (laterRun (script twoPages @ [NetworkError])) = script twoPages @ [NetworkError]"
    by (simp add: laterRun_def)
  have t: "trace (laterRun (script twoPages @ [NetworkError])) = []"
    by (simp add: laterRun_def)
  have n: "Number_toString 440 = ascii ''440''" "Number_toString 2467 = ascii ''2467''"
    by (simp_all add: Number_toString.simps digit_def ascii_def)
  have q: "roundRequests noEscapes assignmentsUrl twoPages =
      [assignmentsUrl, ascii ''https://api.wanikani.com/v2/subjects?ids=440'',
       ascii ''https://api.wanikani.com/v2/assignments?page_after_id=440'',
       ascii ''https://api.wanikani.com/v2/subjects?ids=2467'',
       ascii ''https://api.wanikani.com/v2/subjects?page_after_id=2467'']"
    by (simp add: twoPages_def subjectPages_def no_percent_decodes percent_assignmentsUrl example_urls
        percent_subjectsUrl lookupSubjectIds_def Set_add_def assignmentOf_def)
       (simp add: subjectsUrl_def n ascii_def)
  have l: "length (script twoPages) = 5" by (simp add: twoPages_def subjectPages_def)
  have 1: "\<exists>vs' w'. lookupVocab noEscapes token [Some 2467] []
       (laterRun (map (\<lambda>p. Response True (Json p)) ?sps @ [NetworkError])) =
       Some (Inr (), vs', w') \<and>
     responses w' = [NetworkError] \<and> length (trace w') = 2"
    using conjunct1 [OF pagination_terminates [of noEscapes ?sps
        "laterRun (map (\<lambda>p. Response True (Json p)) ?sps @ [NetworkError])" "[NetworkError]"
        token "[Some 2467]" "[]" "[]" "[]"]] c r'
    by (auto simp: t' l')
  have 2: "\<exists>kv' w'. getAssignments noEscapes token []
       (laterRun (script twoPages @ [NetworkError])) = Some (Inr (), kv', w') \<and>
     responses w' = [NetworkError] \<and> length (trace w') = 5 \<and>
     trace w' =
       [Fetch assignmentsUrl (bearer token),
        Fetch (ascii ''https://api.wanikani.com/v2/subjects?ids=440'') (bearer token),
        Fetch (ascii ''https://api.wanikani.com/v2/assignments?page_after_id=440'') (bearer token),
        Fetch (ascii ''https://api.wanikani.com/v2/subjects?ids=2467'') (bearer token),
        Fetch (ascii ''https://api.wanikani.com/v2/subjects?page_after_id=2467'') (bearer token)]"
    using conjunct2 [OF pagination_terminates [of noEscapes "[]" "laterRun (script twoPages @ [NetworkError])"
      "[NetworkError]" token "[]" "[]" twoPages "[]"]]
      example_chains(2) r
    by (auto simp: t q l)
  from 1 2 show ?thesis by (rule conjI)
qed

text \<open>
  Claim C5, as stated: only records at or above the fifth stage and of kind kanji or
  vocabulary contribute an identifier to the subjects lookup. The script does not look
  at stage or kind: a record of a radical at stage 1 on the page sends its identifier 7
  into the lookup.
\<close>

theorem getAssignments_filter_counterexample:
  "data (fst (hd radicalPage)) = [assignmentOf 7 1 ''radical''] \<and>
   map_option (\<lambda>(r, kv, w'). (r, trace w'))
     (getAssignments noEscapes token [] (laterRun (script radicalPage))) =
   Some (Inr (),
     [Fetch assignmentsUrl (bearer token),
      Fetch (ascii ''https://api.wanikani.com/v2/subjects?ids=7'') (bearer token)])"
proof -
  have d: "decodes noEscapes assignmentsUrl"
    by (simp add: no_percent_decodes percent_assignmentsUrl)
  have r: "responses (laterRun (script radicalPage)) = script radicalPage @ []"
    by (simp add: laterRun_def)
  have n: "Number_toString 7 = ascii ''7''"
    by (simp add: Number_toString.simps digit_def ascii_def)
  have q: "roundRequests noEscapes assignmentsUrl radicalPage =
      [assignmentsUrl, ascii ''https://api.wanikani.com/v2/subjects?ids=7'']"
    by (simp add: radicalPage_def no_percent_decodes percent_assignmentsUrl
        percent_subjectsUrl lookupSubjectIds_def Set_add_def assignmentOf_def)
       (simp add: subjectsUrl_def n ascii_def)
  show ?thesis
    unfolding getAssignments_assignmentsUrl
      getAssignments_pages_run [OF example_chains(3) d r] q
    by (simp add: laterRun_def) (simp add: radicalPage_def)
qed

text \<open>
  Claim C5, amended: the filter is part of the request and of nothing else. The first
  request of \<open>getAssignments\<close> asks for the stages 5 to 9 and the kinds kanji and
  vocabulary, and every record of every page of assignments that comes back contributes
  its identifier to the subjects lookup that follows the page.
\<close>

theorem getAssignments_filter:
  assumes "roundsChain unescape rs" "responses w = script rs @ rest"
  shows "\<exists>kv w'. getAssignments unescape tok kv0 w = Some (Inr (), kv, w') \<and>
     hd (drop (length (trace w)) (trace w')) = Fetch assignmentsUrl (bearer tok) \<and>
     (\<forall>(a, sps) \<in> set rs.
        Fetch (subjectsUrl (lookupSubjectIds a [])) (bearer tok) \<in> set (trace w') \<and>
        set (lookupSubjectIds a []) = subject_id_of ` set (data a))"
proof -
  have d: "decodes unescape assignmentsUrl"
    by (simp add: no_percent_decodes percent_assignmentsUrl)
  have first: "hd (roundRequests unescape assignmentsUrl rs) = assignmentsUrl" "roundRequests unescape assignmentsUrl rs \<noteq> []"
    using assms(1) by (cases rs; auto simp: no_percent_decodes percent_assignmentsUrl)+
  have mem: "(a, sps) \<in> set rs' \<Longrightarrow> roundsChain unescape rs' \<Longrightarrow>
      subjectsUrl (lookupSubjectIds a []) \<in> set (roundRequests unescape url rs')" for a sps rs' url
  proof (induction rs' arbitrary: url)
    case Nil
    then show ?case by simp
  next
    case (Cons r rs')
    obtain a' sps' where r: "r = (a', sps')" by (cases r)
    show ?case
    proof (cases "(a, sps) = r")
      case True
      with Cons.prems(2) r have "pagesChain unescape sps" by (cases rs') auto
      then obtain p ps where "sps = p # ps" by (cases sps) auto
      then have "subjectsUrl (lookupSubjectIds a []) \<in>
          set (requests unescape (subjectsUrl (lookupSubjectIds a [])) sps)"
        by (simp add: no_percent_decodes percent_subjectsUrl)
      with True r show ?thesis by auto
    next
      case False
      with Cons.prems have "(a, sps) \<in> set rs'" by simp
      moreover from this Cons.prems(2) r have "roundsChain unescape rs'" by (cases rs') auto
      ultimately have "subjectsUrl (lookupSubjectIds a []) \<in>
          set (roundRequests unescape (toString (next_url a')) rs')"
        by (rule Cons.IH)
      then show ?thesis by (simp add: r)
    qed
  qed
  show ?thesis
    unfolding getAssignments_assignmentsUrl getAssignments_pages_run [OF assms(1) d assms(2)]
    using first mem [OF _ assms(1)]
    by (auto simp: lookupSubjectIds_set hd_map)
qed

theorem getAssignments_filter_witness:
  "\<exists>kv w'. getAssignments noEscapes token [] (laterRun (script onePage)) = Some (Inr (), kv, w') \<and>
     hd (trace w') = Fetch assignmentsUrl (bearer token) \<and>
     Fetch (subjectsUrl [Some 440, Some 2467]) (bearer token) \<in> set (trace w')"
proof -
  have r: "responses (laterRun (script onePage)) = script onePage @ []"
    by (simp add: laterRun_def)
  have i: "lookupSubjectIds
      \<lparr>data = [assignmentOf 440 5 ''kanji'', assignmentOf 2467 8 ''vocabulary''], next_url = Null\<rparr> [] =
      [Some 440, Some 2467]"
    by (simp add: lookupSubjectIds_def Set_add_def assignmentOf_def)
  from getAssignments_filter [OF example_chains(1) r, of token "[]"]
  show ?thesis
    by (auto simp: laterRun_def onePage_def i)
qed

end
